theory Spec2Isabelle
  imports
    Main
    "HOL-Library.AList"
    "HOL-Library.Char_ord"
    "HOL-Library.List_Lexorder"
    "HOL-Library.Multiset"
    "HOL-Library.Word"
begin

section \<open>Permission aliases of a namespace\<close>

subsection \<open>Data model\<close>

text \<open>
  The namespace definition is a list of relations. A relation carries a name and an
  optional userset rewrite; a rewrite is a set operation over a list of children, and the
  only child that matters to alias computation is a computed userset, which names another
  relation or permission. The protobuf getters \<open>GetUnion\<close> and
  \<open>GetComputedUserset\<close> return nil on every other variant.
\<close>

datatype Child =
    ComputedUserset string
  | This
  | TupleToUserset
  | ChildRewrite
  | NilChild

datatype UsersetRewrite =
    Union "Child list"
  | Intersection "Child list"
  | Exclusion "Child list"

record Relation =
  Name :: string
  UsersetRewrite :: "UsersetRewrite option"

text \<open>
  The validated type system: the relations of its namespace definition in declaration
  order, and its \<open>IsPermission\<close> query, whose implementation lives with the type system
  and is therefore a field here.
\<close>

record ValidatedNamespaceTypeSystem =
  nsDef_Relation :: "Relation list"
  IsPermission :: "string \<Rightarrow> bool"

fun GetUnion :: "UsersetRewrite \<Rightarrow> Child list option" where
  "GetUnion (Union cs) = Some cs"
| "GetUnion (Intersection cs) = None"
| "GetUnion (Exclusion cs) = None"

fun GetComputedUserset :: "Child \<Rightarrow> string option" where
  "GetComputedUserset (ComputedUserset r) = Some r"
| "GetComputedUserset This = None"
| "GetComputedUserset TupleToUserset = None"
| "GetComputedUserset ChildRewrite = None"
| "GetComputedUserset NilChild = None"

text \<open>
  The three Go maps of \<open>computePermissionAliases\<close>. \<open>aliases\<close> and the set
  \<open>done\<close> are only looked up by key; \<open>workingSet\<close> is also counted and ranged over,
  so it is an association list whose keys are kept distinct by \<open>AList.update\<close>.
\<close>

record alias_state =
  aliases :: "string \<rightharpoonup> string"
  doneSet :: "string set"
  workingSet :: "(string \<times> string) list"

definition initial_state :: alias_state where
  "initial_state = \<lparr>aliases = Map.empty, doneSet = {}, workingSet = []\<rparr>"

subsection \<open>First loop: classification of the relations\<close>

definition markDone :: "string \<Rightarrow> alias_state \<Rightarrow> alias_state" where
  "markDone n s = s\<lparr>doneSet := insert n (doneSet s)\<rparr>"

definition classify :: "(string \<Rightarrow> bool) \<Rightarrow> Relation \<Rightarrow> alias_state \<Rightarrow> alias_state" where
  "classify isPerm rel s =
     (case UsersetRewrite rel of
        None \<Rightarrow> markDone (Name rel) s
      | Some rw \<Rightarrow>
          (case GetUnion rw of
             None \<Rightarrow> markDone (Name rel) s
           | Some children \<Rightarrow>
               if length children \<noteq> 1 then markDone (Name rel) s
               else
                 (case GetComputedUserset (children ! 0) of
                    None \<Rightarrow> markDone (Name rel) s
                  | Some aliasedPermOrRel \<Rightarrow>
                      if \<not> isPerm aliasedPermOrRel
                      then (markDone (Name rel) s)
                             \<lparr>aliases := (aliases s)(Name rel \<mapsto> aliasedPermOrRel)\<rparr>
                      else s\<lparr>workingSet :=
                                AList.update (Name rel) aliasedPermOrRel (workingSet s)\<rparr>)))"

definition classifyAll :: "ValidatedNamespaceTypeSystem \<Rightarrow> alias_state" where
  "classifyAll typeSystem =
     fold (classify (IsPermission typeSystem)) (nsDef_Relation typeSystem) initial_state"

subsection \<open>Second loop: resolution passes\<close>

text \<open>
  Go leaves the iteration order of a map unspecified. A pass ranges over the working set
  in an order picked by a list of choices: each choice selects, modulo the number of
  entries not yet visited, the entry visited next; when the choices run out the rest is
  visited in stored order. Every list of choices yields a permutation and every
  permutation is yielded by some list (lemmas \<open>mset_rangeOrder\<close> and
  \<open>rangeOrder_complete\<close>).
\<close>

fun rangeOrder :: "nat list \<Rightarrow> 'a list \<Rightarrow> 'a list" where
  "rangeOrder cs [] = []"
| "rangeOrder [] (x # xs) = x # xs"
| "rangeOrder (c # cs) (x # xs) =
     (let i = c mod length (x # xs)
      in (x # xs) ! i # rangeOrder cs (take i (x # xs) @ drop (Suc i) (x # xs)))"

text \<open>The body of the range loop for one entry of the working set.\<close>

definition resolveEntry :: "string \<times> string \<Rightarrow> alias_state \<Rightarrow> alias_state" where
  "resolveEntry e s =
     (let relName = fst e; aliasedPermission = snd e
      in if aliasedPermission \<in> doneSet s
         then \<lparr>aliases = (aliases s)(relName \<mapsto>
                  (case aliases s aliasedPermission of
                     Some alias \<Rightarrow> alias
                   | None \<Rightarrow> aliasedPermission)),
               doneSet = insert relName (doneSet s),
               workingSet = AList.delete relName (workingSet s)\<rparr>
         else s)"

text \<open>
  Only the entry being visited is deleted during the range loop, so the loop visits
  exactly the entries present when it starts.
\<close>

definition pass :: "nat list \<Rightarrow> alias_state \<Rightarrow> alias_state" where
  "pass cs s = fold resolveEntry (rangeOrder cs (workingSet s)) s"

text \<open>\<open>fmt\<close>'s \<open>%v\<close> of a string slice: the elements separated by blanks, in brackets.\<close>

fun joinBlank :: "string list \<Rightarrow> string" where
  "joinBlank [] = []"
| "joinBlank [k] = k"
| "joinBlank (k # k' # ks) = k @ '' '' @ joinBlank (k' # ks)"

text \<open>The message of the error that \<open>fmt.Errorf\<close> builds from the keys.\<close>

definition cycleMessage :: "string list \<Rightarrow> string" where
  "cycleMessage names = ''there exists a cycle in permissions: '' @ ''['' @ joinBlank names @ '']''"

text \<open>The keys left in the working set, sorted by \<open>sort.Strings\<close> (bytewise order).\<close>

definition cycleError :: "(string \<times> string) list \<Rightarrow> string" where
  "cycleError ws = cycleMessage (sort (map fst ws))"

lemma length_delete_le: "length (AList.delete k al) \<le> length al"
  by (simp add: AList.delete_eq)

lemma resolveEntry_length_le: "length (workingSet (resolveEntry e s)) \<le> length (workingSet s)"
  by (simp add: resolveEntry_def Let_def length_delete_le)

lemma fold_resolveEntry_length_le:
  "length (workingSet (fold resolveEntry es s)) \<le> length (workingSet s)"
proof (induction es arbitrary: s)
  case Nil
  show ?case by simp
next
  case (Cons e es)
  have "length (workingSet (fold resolveEntry es (resolveEntry e s)))
          \<le> length (workingSet (resolveEntry e s))"
    by (rule Cons.IH)
  also have "\<dots> \<le> length (workingSet s)"
    by (rule resolveEntry_length_le)
  finally show ?case by simp
qed

lemma pass_length_le: "length (workingSet (pass cs s)) \<le> length (workingSet s)"
  by (simp add: pass_def fold_resolveEntry_length_le)

text \<open>
  The \<open>for len(workingSet) > 0\<close> loop. \<open>order n\<close> is the iteration order of the
  \<open>n\<close>-th pass.
\<close>

function resolveLoop :: "(nat \<Rightarrow> nat list) \<Rightarrow> nat \<Rightarrow> alias_state \<Rightarrow> string + (string \<rightharpoonup> string)" where
  "resolveLoop order n s =
     (if length (workingSet s) > 0 then
        (let startingCount = length (workingSet s);
             s' = pass (order n) s
         in if length (workingSet s') = startingCount
            then Inl (cycleError (workingSet s'))
            else resolveLoop order (Suc n) s')
      else Inr (aliases s))"
  by pat_completeness auto
termination
proof (relation "measure (\<lambda>(order, n, s). length (workingSet s))", goal_cases)
  case 1
  show ?case by simp
next
  case (2 order n s startingCount s')
  then show ?case
    using pass_length_le [of "order n" s] by simp
qed

text \<open>
  The states at the head of each executed pass, in order: a ghost of \<open>resolveLoop\<close>
  with the same control flow.
\<close>

function loopTrace :: "(nat \<Rightarrow> nat list) \<Rightarrow> nat \<Rightarrow> alias_state \<Rightarrow> alias_state list" where
  "loopTrace order n s =
     (if length (workingSet s) > 0 then
        (let startingCount = length (workingSet s);
             s' = pass (order n) s
         in if length (workingSet s') = startingCount
            then [s]
            else s # loopTrace order (Suc n) s')
      else [])"
  by pat_completeness auto
termination
proof (relation "measure (\<lambda>(order, n, s). length (workingSet s))", goal_cases)
  case 1
  show ?case by simp
next
  case (2 order n s startingCount s')
  then show ?case
    using pass_length_le [of "order n" s] by simp
qed

text \<open>
  \<open>computePermissionAliases\<close>: the first loop, then the resolution loop from pass 0.
  The result is the cycle error or the alias map.
\<close>

definition computePermissionAliases ::
  "(nat \<Rightarrow> nat list) \<Rightarrow> ValidatedNamespaceTypeSystem \<Rightarrow> string + (string \<rightharpoonup> string)" where
  "computePermissionAliases order typeSystem = resolveLoop order 0 (classifyAll typeSystem)"

subsection \<open>Notions used to state the properties\<close>

text \<open>The keys of the working set.\<close>

definition keysOf :: "alias_state \<Rightarrow> string set" where
  "keysOf s = fst ` set (workingSet s)"

text \<open>
  A permission of the working set can be resolved when its target is done, or is a
  permission of the working set that can be resolved; the others are unresolved. The
  definition does not mention any iteration order.
\<close>

inductive resolvable :: "string set \<Rightarrow> (string \<times> string) list \<Rightarrow> string \<Rightarrow> bool"
  for D :: "string set" and ws :: "(string \<times> string) list" where
  direct: "(k, t) \<in> set ws \<Longrightarrow> t \<in> D \<Longrightarrow> resolvable D ws k"
| chained: "(k, t) \<in> set ws \<Longrightarrow> resolvable D ws t \<Longrightarrow> resolvable D ws k"

definition unresolved :: "alias_state \<Rightarrow> string set" where
  "unresolved s = {k \<in> keysOf s. \<not> resolvable (doneSet s) (workingSet s) k}"

text \<open>The working set holds one entry per key, as a Go map does.\<close>

definition wsDistinct :: "alias_state \<Rightarrow> bool" where
  "wsDistinct s = distinct (map fst (workingSet s))"

text \<open>
  The relation or permission that a relation directly refers to, when its rewrite is a
  union of a single computed userset (the four checks of the first loop), and the names
  of the relations of that shape.
\<close>

definition aliasTarget :: "Relation \<Rightarrow> string option" where
  "aliasTarget rel =
     (case UsersetRewrite rel of
        None \<Rightarrow> None
      | Some rw \<Rightarrow>
          (case GetUnion rw of
             None \<Rightarrow> None
           | Some children \<Rightarrow>
               if length children \<noteq> 1 then None else GetComputedUserset (children ! 0)))"

definition directAliases :: "Relation list \<Rightarrow> string set" where
  "directAliases rels = set (map Name (filter (\<lambda>r. aliasTarget r \<noteq> None) rels))"

text \<open>
  Invariants of the first and of the second loop: no recorded alias target is a direct
  alias itself, respectively a key of the alias map or of the working set, and no name
  is done and in the working set at once.
\<close>

definition firstInv :: "string set \<Rightarrow> alias_state \<Rightarrow> bool" where
  "firstInv A s \<longleftrightarrow>
     (\<forall>k v. aliases s k = Some v \<longrightarrow> v \<notin> A) \<and> dom (aliases s) \<subseteq> A \<and> keysOf s \<subseteq> A
     \<and> doneSet s \<inter> keysOf s = {} \<and> wsDistinct s"

definition secondInv :: "alias_state \<Rightarrow> bool" where
  "secondInv s \<longleftrightarrow>
     (\<forall>k v. aliases s k = Some v \<longrightarrow> v \<notin> dom (aliases s) \<and> v \<notin> keysOf s)
     \<and> doneSet s \<inter> keysOf s = {} \<and> wsDistinct s"

text \<open>
  Every target in the working set is done or is itself in the working set; every target
  in the working set is a permission.
\<close>

definition closed :: "alias_state \<Rightarrow> bool" where
  "closed s \<longleftrightarrow> (\<forall>e \<in> set (workingSet s). snd e \<in> doneSet s \<union> keysOf s)"

definition permTargets :: "(string \<Rightarrow> bool) \<Rightarrow> alias_state \<Rightarrow> bool" where
  "permTargets p s \<longleftrightarrow> (\<forall>e \<in> set (workingSet s). p (snd e))"

text \<open>
  Two iteration orders: every pass in stored order, and every pass starting with the
  second entry. \<open>lookupAlias\<close> reads a key in the returned map.
\<close>

definition storedOrder :: "nat \<Rightarrow> nat list" where
  "storedOrder n = []"

definition secondFirst :: "nat \<Rightarrow> nat list" where
  "secondFirst n = [1, 0]"

definition lookupAlias :: "string + (string \<rightharpoonup> string) \<Rightarrow> string \<Rightarrow> string option" where
  "lookupAlias r k = (case r of Inl e \<Rightarrow> None | Inr m \<Rightarrow> m k)"

text \<open>
  Sample namespaces: a relation without rewrite, a relation that directly refers to
  another, and four namespaces built from them.
\<close>

definition plain :: "string \<Rightarrow> Relation" where
  "plain n = \<lparr>Name = n, UsersetRewrite = None\<rparr>"

definition aliasTo :: "string \<Rightarrow> string \<Rightarrow> Relation" where
  "aliasTo n t = \<lparr>Name = n, UsersetRewrite = Some (Union [ComputedUserset t])\<rparr>"

definition basic_ns :: ValidatedNamespaceTypeSystem where
  "basic_ns = \<lparr>nsDef_Relation = [plain ''owner'', aliasTo ''edit'' ''owner'', aliasTo ''view'' ''edit''],
                IsPermission = (\<lambda>n. n \<in> set [''edit'', ''view''])\<rparr>"

definition legacy_ns :: ValidatedNamespaceTypeSystem where
  "legacy_ns = \<lparr>nsDef_Relation = [plain ''c'', aliasTo ''b'' ''c'', aliasTo ''a'' ''b''],
                IsPermission = (\<lambda>n. n \<in> set [''a''])\<rparr>"

definition duplicate_ns :: ValidatedNamespaceTypeSystem where
  "duplicate_ns = \<lparr>nsDef_Relation = [plain ''v'', plain ''t'', aliasTo ''u'' ''v'', aliasTo ''t'' ''u'', aliasTo ''a'' ''t''],
                IsPermission = (\<lambda>n. n \<in> set [''t'', ''u'', ''a''])\<rparr>"

definition cyclic_ns :: ValidatedNamespaceTypeSystem where
  "cyclic_ns = \<lparr>nsDef_Relation = [aliasTo ''z'' ''y'', aliasTo ''y'' ''z'', aliasTo ''a'' ''z''],
                IsPermission = (\<lambda>n. n \<in> set [''y'', ''z'', ''a''])\<rparr>"

lemmas run_defs = computePermissionAliases_def classifyAll_def classify_def markDone_def
  initial_state_def pass_def resolveEntry_def cycleError_def cycleMessage_def Let_def plain_def aliasTo_def
  storedOrder_def secondFirst_def lookupAlias_def


section \<open>Garbage collection\<close>

subsection \<open>Data model\<close>

text \<open>
  The garbage-collection engine itself (the Single-Attempt Collector, the Scheduler Loop
  and the One-Shot Runner) is not among the sources: only its test double and the
  command that calls the One-Shot Runner are. This section models the engine from its
  specification. Instants and durations of the collector's own clock are natural numbers
  (nanoseconds); a Reference Time of the backend and a Revision are integers, used only
  through order, equality and subtraction of the Window.
\<close>

text \<open>
  Modelled from the spec: the error a backend call fails with is the backend's own, of
  which the engine knows nothing but the value (here its message).
\<close>

type_synonym backend_error = string

text \<open>
  Modelled from the spec: the error taxonomy. A backend that is not ready; a transient
  failure of a backend call, which carries the backend's error as it is; external
  cancellation; and the abort of an attempt that outlives its timeout. The last two are
  errors of the context and never a backend's: whatever a backend call fails with is a
  \<open>BackendTransient\<close>. Exhaustion of the backoff has no error of its own: it
  returns the last error.
\<close>

datatype gc_error =
    NotReady string
  | BackendTransient backend_error
  | Cancelled
  | DeadlineExceeded

text \<open>
  Modelled from the spec: DeletionCounts, how many entries a deletion removed, by
  category; the counts are never negative.
\<close>

record DeletionCounts =
  Relationships :: nat
  Transactions :: nat
  Namespaces :: nat

text \<open>
  Modelled from the spec: the GC Target Adapter, the capability set a backend exposes.
  Every operation runs on the backend's state \<open>'b\<close> and returns the state it leaves.
\<close>

record 'b GarbageCollector =
  ReadyState :: "'b \<Rightarrow> (bool \<times> string) \<times> 'b"
  Now :: "'b \<Rightarrow> (backend_error + int) \<times> 'b"
  TxIDBefore :: "int \<Rightarrow> 'b \<Rightarrow> (backend_error + int) \<times> 'b"
  DeleteBeforeTx :: "int \<Rightarrow> 'b \<Rightarrow> (backend_error + DeletionCounts) \<times> 'b"
  MarkGCCompleted :: "'b \<Rightarrow> 'b"
  ResetGCCompleted :: "'b \<Rightarrow> 'b"

text \<open>
  Modelled from the spec: the configuration surface (scheduling interval, retention
  window, per-attempt timeout, maximum backoff elapsed time). The growth factor of the
  exponential delay is left open by the spec and is a parameter.
\<close>

record gc_config =
  interval :: nat
  window :: int
  timeout :: nat
  maxElapsedTime :: nat
  backoffFactor :: nat

text \<open>
  Modelled from the spec: the context a call or a wait observes. External cancellation
  fires at an instant of the collector's clock, or never; a bounded attempt also has a
  deadline.
\<close>

record ctx =
  cancelAt :: "nat option"
  deadline :: "nat option"

text \<open>
  Modelled from the spec: what a collector instance carries between attempts: the
  backend, its own clock, the failure counter, the success metric, and the terminal
  errors that the Scheduler Loop has logged, newest first.
\<close>

record 'b gc_state =
  backend :: 'b
  clock :: nat
  failureCounter :: nat
  successCounter :: nat
  logged :: "gc_error list"

subsection \<open>Cancellation and waiting\<close>

text \<open>
  Modelled from the spec: every wait and every backend call observes the context and
  returns at once with the cancellation error; external cancellation takes precedence.
\<close>

definition ctxErr :: "ctx \<Rightarrow> nat \<Rightarrow> gc_error option" where
  "ctxErr c t =
     (if (case cancelAt c of None \<Rightarrow> False | Some a \<Rightarrow> a \<le> t) then Some Cancelled
      else if (case deadline c of None \<Rightarrow> False | Some d \<Rightarrow> d \<le> t) then Some DeadlineExceeded
      else None)"

text \<open>Modelled from the spec: the first instant at which a context is done, if any.\<close>

definition firesAt :: "ctx \<Rightarrow> nat option" where
  "firesAt c =
     (case cancelAt c of
        None \<Rightarrow> deadline c
      | Some a \<Rightarrow> (case deadline c of None \<Rightarrow> Some a | Some d \<Rightarrow> Some (min a d)))"

text \<open>
  Modelled from the spec: an interruptible wait of \<open>d\<close>. It ends at the wake-up
  instant unless the context is done by then; an interrupted wait does not complete: it
  returns the context's error at the instant the context is done (at once when it
  already is).
\<close>

definition wait :: "ctx \<Rightarrow> nat \<Rightarrow> 'b gc_state \<Rightarrow> gc_error option \<times> 'b gc_state" where
  "wait c d s =
     (case firesAt c of
        None \<Rightarrow> (None, s\<lparr>clock := clock s + d\<rparr>)
      | Some x \<Rightarrow>
          if clock s + d < x then (None, s\<lparr>clock := clock s + d\<rparr>)
          else (ctxErr c (max (clock s) x), s\<lparr>clock := max (clock s) x\<rparr>))"

text \<open>
  Modelled from the spec: one backend call under a context, which is observed when the
  call is issued. A done context issues no call and gives the context's error (the
  outer \<open>Inl\<close>); otherwise the call runs on the backend, takes \<open>latency\<close> on the
  collector's clock, and what the backend returned is the outer \<open>Inr\<close>.
\<close>

definition backendCall ::
  "nat \<Rightarrow> ctx \<Rightarrow> ('b \<Rightarrow> 'r \<times> 'b) \<Rightarrow> 'b gc_state \<Rightarrow> (gc_error + 'r) \<times> 'b gc_state" where
  "backendCall latency c f s =
     (case ctxErr c (clock s) of
        Some e \<Rightarrow> (Inl e, s)
      | None \<Rightarrow>
          (case f (backend s) of
             (r, b) \<Rightarrow> (Inr r, s\<lparr>backend := b, clock := clock s + latency\<rparr>)))"

subsection \<open>One try\<close>

text \<open>
  Modelled from the spec: steps 1 to 5 of the Single-Attempt Collector, last step
  first. Steps 4 and 5: \<open>DeleteBeforeTx(watermark)\<close> and, on success,
  \<open>MarkGCCompleted()\<close>. A failure of the call is backend-transient.
\<close>

definition deleteStep ::
  "'b GarbageCollector \<Rightarrow> nat \<Rightarrow> ctx \<Rightarrow> int \<Rightarrow> 'b gc_state
     \<Rightarrow> (gc_error + DeletionCounts) \<times> 'b gc_state" where
  "deleteStep gc latency c watermark s3 =
     (case backendCall latency c (DeleteBeforeTx gc watermark) s3 of
        (Inl e, s4) \<Rightarrow> (Inl e, s4)
      | (Inr (Inl err), s4) \<Rightarrow> (Inl (BackendTransient err), s4)
      | (Inr (Inr counts), s4) \<Rightarrow>
          (Inr counts, s4\<lparr>backend := MarkGCCompleted gc (backend s4)\<rparr>))"

text \<open>
  Modelled from the spec: the rest of step 2 and step 3, given the backend's
  \<open>Now()\<close>: the threshold \<open>Now() - window\<close> and the watermark
  \<open>TxIDBefore(threshold)\<close>.
\<close>

definition watermarkStep ::
  "'b GarbageCollector \<Rightarrow> gc_config \<Rightarrow> nat \<Rightarrow> ctx \<Rightarrow> int \<Rightarrow> 'b gc_state
     \<Rightarrow> (gc_error + DeletionCounts) \<times> 'b gc_state" where
  "watermarkStep gc cfg latency c now s2 =
     (case backendCall latency c (TxIDBefore gc (now - window cfg)) s2 of
        (Inl e, s3) \<Rightarrow> (Inl e, s3)
      | (Inr (Inl err), s3) \<Rightarrow> (Inl (BackendTransient err), s3)
      | (Inr (Inr watermark), s3) \<Rightarrow> deleteStep gc latency c watermark s3)"

text \<open>Modelled from the spec: step 2, the backend's own notion of now.\<close>

definition nowStep ::
  "'b GarbageCollector \<Rightarrow> gc_config \<Rightarrow> nat \<Rightarrow> ctx \<Rightarrow> 'b gc_state
     \<Rightarrow> (gc_error + DeletionCounts) \<times> 'b gc_state" where
  "nowStep gc cfg latency c s1 =
     (case backendCall latency c (Now gc) s1 of
        (Inl e, s2) \<Rightarrow> (Inl e, s2)
      | (Inr (Inl err), s2) \<Rightarrow> (Inl (BackendTransient err), s2)
      | (Inr (Inr now), s2) \<Rightarrow> watermarkStep gc cfg latency c now s2)"

text \<open>
  Modelled from the spec: one try. Step 1 polls \<open>ReadyState()\<close>; a backend that is
  not ready fails the try.
\<close>

definition collect ::
  "'b GarbageCollector \<Rightarrow> gc_config \<Rightarrow> nat \<Rightarrow> ctx \<Rightarrow> 'b gc_state
     \<Rightarrow> (gc_error + DeletionCounts) \<times> 'b gc_state" where
  "collect gc cfg latency c s0 =
     (case backendCall latency c (ReadyState gc) s0 of
        (Inl e, s1) \<Rightarrow> (Inl e, s1)
      | (Inr ready, s1) \<Rightarrow>
          if \<not> fst ready then (Inl (NotReady (snd ready)), s1)
          else nowStep gc cfg latency c s1)"

subsection \<open>Backoff Policy\<close>

text \<open>
  Modelled from the spec: the Backoff State: current delay, attempt count and sequence
  start time.
\<close>

record BackoffState =
  currentDelay :: nat
  attemptCount :: nat
  sequenceStart :: nat

text \<open>
  Modelled from the spec: the policy on construction, from the base interval (the
  scheduling interval) at the start of an attempt sequence.
\<close>

definition newBackoff :: "gc_config \<Rightarrow> nat \<Rightarrow> BackoffState" where
  "newBackoff cfg start = \<lparr>currentDelay = interval cfg, attemptCount = 0, sequenceStart = start\<rparr>"

text \<open>
  Modelled from the spec: \<open>NextDelay\<close>. The policy is exhausted (\<open>None\<close>) when the
  time elapsed since the sequence start plus the computed delay would exceed the
  maximum elapsed time; otherwise it gives the delay and grows the next one.
\<close>

definition NextDelay :: "gc_config \<Rightarrow> nat \<Rightarrow> BackoffState \<Rightarrow> (nat \<times> BackoffState) option" where
  "NextDelay cfg now b =
     (if (now - sequenceStart b) + currentDelay b > maxElapsedTime cfg then None
      else Some (currentDelay b,
                 b\<lparr>currentDelay := currentDelay b * backoffFactor cfg,
                   attemptCount := Suc (attemptCount b)\<rparr>))"

subsection \<open>Single-Attempt Collector\<close>

text \<open>
  Modelled from the spec: the wait between two tries, interruptible by external
  cancellation: the Backoff State to retry with, or the cancellation error.
\<close>

definition retryAfter ::
  "ctx \<Rightarrow> nat \<Rightarrow> BackoffState \<Rightarrow> 'b gc_state \<Rightarrow> (gc_error + BackoffState) \<times> 'b gc_state" where
  "retryAfter c d bo s =
     (case wait (c\<lparr>deadline := None\<rparr>) d s of
        (Some ce, s4) \<Rightarrow> (Inl ce, s4)
      | (None, s4) \<Rightarrow> (Inr bo, s4))"

text \<open>
  Modelled from the spec: step 6 of the Single-Attempt Collector, what follows a try
  that did not succeed: either the error to return or the Backoff State to retry with.
  \<open>Cancelled\<close> and \<open>DeadlineExceeded\<close> are errors of the context alone,
  since whatever a backend call fails with is \<open>BackendTransient\<close> (lemma
  \<open>collect_context_error\<close>). A try that
  external cancellation ended is no failure: the cancellation is propagated at once.
  Every other try that did not succeed is a failure and increments the failure
  counter. A try that the timeout cut aborts the attempt. After a try that failed on
  the backend, not ready or backend-transient, the policy is consulted: a permitted
  retry waits the delay; exhaustion returns the last error, except that a maximum
  elapsed time below the base interval degrades into retries with no delay.
\<close>

definition onFailure ::
  "gc_config \<Rightarrow> ctx \<Rightarrow> BackoffState \<Rightarrow> gc_error \<Rightarrow> 'b gc_state
     \<Rightarrow> (gc_error + BackoffState) \<times> 'b gc_state" where
  "onFailure cfg c bo e s1 =
     (if e = Cancelled then (Inl e, s1)
      else
        (let s3 = s1\<lparr>failureCounter := Suc (failureCounter s1)\<rparr>
         in if e = DeadlineExceeded then (Inl e, s3)
            else
              (case NextDelay cfg (clock s3) bo of
                 Some (d, bo') \<Rightarrow> retryAfter c d bo' s3
               | None \<Rightarrow>
                   if maxElapsedTime cfg < interval cfg then retryAfter c 0 bo s3
                   else (Inl e, s3))))"

text \<open>
  Modelled from the spec: \<open>RunOnce\<close>, one attempt retried until success, exhaustion
  or cancellation; success records the success metric. The retry loop need not end, so
  it runs on fuel: the result \<open>None\<close> says that the attempt is still running after
  \<open>fuel\<close> tries, in the state returned with it.
\<close>

fun RunOnce ::
  "nat \<Rightarrow> 'b GarbageCollector \<Rightarrow> gc_config \<Rightarrow> nat \<Rightarrow> ctx \<Rightarrow> BackoffState \<Rightarrow> 'b gc_state
     \<Rightarrow> (gc_error + DeletionCounts) option \<times> 'b gc_state" where
  "RunOnce 0 gc cfg latency c bo s = (None, s)"
| "RunOnce (Suc fuel) gc cfg latency c bo s =
     (case collect gc cfg latency c s of
        (Inr counts, s1) \<Rightarrow>
          (Some (Inr counts), s1\<lparr>successCounter := Suc (successCounter s1)\<rparr>)
      | (Inl e, s1) \<Rightarrow>
          (case onFailure cfg c bo e s1 of
             (Inl err, s4) \<Rightarrow> (Some (Inl err), s4)
           | (Inr bo', s4) \<Rightarrow> RunOnce fuel gc cfg latency c bo' s4))"

subsection \<open>One-Shot Runner and Scheduler Loop\<close>

text \<open>
  Modelled from the spec: the One-Shot Runner, a single tick with no scheduling: one
  \<open>RunOnce\<close> bounded by the timeout, under no external cancellation, whose terminal
  error goes to the caller.
\<close>

definition RunGarbageCollection ::
  "nat \<Rightarrow> 'b GarbageCollector \<Rightarrow> gc_config \<Rightarrow> nat \<Rightarrow> 'b gc_state
     \<Rightarrow> (gc_error + DeletionCounts) option \<times> 'b gc_state" where
  "RunGarbageCollection fuel gc cfg latency s =
     RunOnce fuel gc cfg latency \<lparr>cancelAt = None, deadline = Some (clock s + timeout cfg)\<rparr>
       (newBackoff cfg (clock s)) s"

text \<open>
  Modelled from the spec: what the Scheduler Loop does with the result of a tick: a
  terminal error is swallowed into the log, the metrics being already updated.
\<close>

fun swallow :: "gc_error + DeletionCounts \<Rightarrow> 'b gc_state \<Rightarrow> 'b gc_state" where
  "swallow (Inl e) s = s\<lparr>logged := e # logged s\<rparr>"
| "swallow (Inr counts) s = s"

text \<open>
  Modelled from the spec: the Scheduler Loop. It waits for the next tick, runs
  \<open>RunOnce\<close> bounded by the timeout with a fresh Backoff State, swallows the tick's
  result and goes on; it returns only from an interrupted wait, with the cancellation
  error. It runs on fuel like \<open>RunOnce\<close>: \<open>None\<close> says that the loop is still
  running, in the state returned with it.
\<close>

fun startGarbageCollectorWithMaxElapsedTime ::
  "nat \<Rightarrow> nat option \<Rightarrow> 'b GarbageCollector \<Rightarrow> gc_config \<Rightarrow> nat \<Rightarrow> 'b gc_state
     \<Rightarrow> gc_error option \<times> 'b gc_state" where
  "startGarbageCollectorWithMaxElapsedTime 0 cancel gc cfg latency s = (None, s)"
| "startGarbageCollectorWithMaxElapsedTime (Suc fuel) cancel gc cfg latency s =
     (case wait \<lparr>cancelAt = cancel, deadline = None\<rparr> (interval cfg) s of
        (Some e, s1) \<Rightarrow> (Some e, s1)
      | (None, s1) \<Rightarrow>
          (case RunOnce fuel gc cfg latency
                  \<lparr>cancelAt = cancel, deadline = Some (clock s1 + timeout cfg)\<rparr>
                  (newBackoff cfg (clock s1)) s1 of
             (None, s2) \<Rightarrow> (None, s2)
           | (Some r, s2) \<Rightarrow>
               startGarbageCollectorWithMaxElapsedTime fuel cancel gc cfg latency (swallow r s2)))"

subsection \<open>The gc command\<close>

text \<open>
  The run function of the \<open>gc\<close> command, the caller of the One-Shot Runner. The
  datastore is a nest of wrappers (\<open>UnwrappableDatastore\<close>) around a core that is a
  garbage collector or is not; of the latter only the type name matters, for the
  message.
\<close>

datatype 'g CoreDatastore =
    Collector 'g
  | NonCollector string

datatype 'g Datastore =
    Unwrappable "'g Datastore"
  | Core "'g CoreDatastore"

text \<open>The loop that unwraps the datastore until it is no longer unwrappable.\<close>

fun unwrapped :: "'g Datastore \<Rightarrow> 'g CoreDatastore" where
  "unwrapped (Unwrappable wds) = unwrapped wds"
| "unwrapped (Core ds) = ds"

text \<open>
  The fields of the datastore configuration that the command touches, and the errors it
  returns: the wrapped error of \<open>NewDatastore\<close>, the refusal of a datastore that
  does not support garbage collection, and the error of the One-Shot Runner as it is.
\<close>

record Config =
  GCInterval :: int
  RequestHedgingEnabled :: bool
  GCWindow :: int
  GCMaxOperationTime :: int

datatype 'e command_error =
    FailedToCreateDatastore 'e
  | NoGarbageCollection string
  | RunError gc_error

text \<open>
  \<open>NewDatastore\<close> and the One-Shot Runner are not among the sources and are
  parameters; the runner gives the error it returns, \<open>None\<close> for nil. The command
  first disables background collection (an interval of minus one hour) and hedging in
  the configuration it was given, which is returned with the result. The two log lines
  are left out.
\<close>

definition gcRunE ::
  "(Config \<Rightarrow> 'e + 'g Datastore) \<Rightarrow> ('g \<Rightarrow> int \<Rightarrow> int \<Rightarrow> gc_error option) \<Rightarrow> Config
     \<Rightarrow> 'e command_error option \<times> Config" where
  "gcRunE newDatastore runGarbageCollection cfg0 =
     (let cfg = cfg0\<lparr>GCInterval := - 3600000000000, RequestHedgingEnabled := False\<rparr>
      in (case newDatastore cfg of
            Inl err \<Rightarrow> Some (FailedToCreateDatastore err)
          | Inr ds \<Rightarrow>
              (case unwrapped ds of
                 NonCollector ty \<Rightarrow> Some (NoGarbageCollection ty)
               | Collector gc \<Rightarrow>
                   (case runGarbageCollection gc (GCWindow cfg) (GCMaxOperationTime cfg) of
                      Some err \<Rightarrow> Some (RunError err)
                    | None \<Rightarrow> None)),
          cfg))"

subsection \<open>The test double\<close>

text \<open>
  The fake collector of the test suite: \<open>TxIDBefore\<close> ignores its argument and
  returns a new incremented revision, \<open>DeleteBeforeTx\<close> counts the call and asks the
  deleter, the completion calls are counted. The revision counter is an \<open>int64\<close>
  and wraps; the revision it gives is its signed value, and \<open>IntPart()\<close> takes
  the revision it is given back to an \<open>int64\<close>. The counters of the metrics are
  Go's \<open>int\<close>, of 64 bits. \<open>wallClock\<close> stands for the reading of
  \<open>time.Now()\<close>.
\<close>

record gcMetrics =
  deleteBeforeTxCount :: "64 word"
  markedCompleteCount :: "64 word"
  resetGCCompletedCount :: "64 word"

datatype gcDeleter =
    alwaysErrorDeleter
  | revisionErrorDeleter "64 word list"

record fakeGC =
  lastRevision :: "64 word"
  deleter :: gcDeleter
  metrics :: gcMetrics
  wallClock :: int

definition noDeletions :: DeletionCounts where
  "noDeletions = \<lparr>Relationships = 0, Transactions = 0, Namespaces = 0\<rparr>"

fun deleterDeleteBeforeTx :: "gcDeleter \<Rightarrow> 64 word \<Rightarrow> backend_error + DeletionCounts" where
  "deleterDeleteBeforeTx alwaysErrorDeleter revision = Inl ''delete error''"
| "deleterDeleteBeforeTx (revisionErrorDeleter errorOnRevisions) revision =
     (if revision \<in> set errorOnRevisions then Inl ''delete error''
      else Inr noDeletions)"

definition newFakeGC :: "gcDeleter \<Rightarrow> int \<Rightarrow> fakeGC" where
  "newFakeGC d t =
     \<lparr>lastRevision = 0, deleter = d,
      metrics = \<lparr>deleteBeforeTxCount = 0, markedCompleteCount = 0, resetGCCompletedCount = 0\<rparr>,
      wallClock = t\<rparr>"

definition fakeTarget :: "fakeGC GarbageCollector" where
  "fakeTarget =
     \<lparr>ReadyState = (\<lambda>g. ((True, ''Ready''), g)),
      Now = (\<lambda>g. (Inr (wallClock g), g)),
      TxIDBefore = (\<lambda>t g. (Inr (sint (lastRevision g + 1)), g\<lparr>lastRevision := lastRevision g + 1\<rparr>)),
      DeleteBeforeTx = (\<lambda>rev g.
        (deleterDeleteBeforeTx (deleter g) (word_of_int rev),
         g\<lparr>metrics := (metrics g)\<lparr>deleteBeforeTxCount := deleteBeforeTxCount (metrics g) + 1\<rparr>\<rparr>)),
      MarkGCCompleted = (\<lambda>g.
         g\<lparr>metrics := (metrics g)\<lparr>markedCompleteCount := markedCompleteCount (metrics g) + 1\<rparr>\<rparr>),
      ResetGCCompleted = (\<lambda>g.
         g\<lparr>metrics := (metrics g)\<lparr>resetGCCompletedCount := resetGCCompletedCount (metrics g) + 1\<rparr>\<rparr>)\<rparr>"

definition HasGCRun :: "fakeGC \<Rightarrow> bool" where
  "HasGCRun g = (0 <s markedCompleteCount (metrics g))"

subsection \<open>A backend that records the calls it receives\<close>

text \<open>
  A call of an adapter operation as the backend sees it: the argument it received and
  what it returned.
\<close>

datatype call =
    CallReadyState bool string
  | CallNow "backend_error + int"
  | CallTxIDBefore int "backend_error + int"
  | CallDeleteBeforeTx int "backend_error + DeletionCounts"
  | CallMarkGCCompleted
  | CallResetGCCompleted

text \<open>
  Any backend, wrapped so that it keeps a record of the calls it receives, newest
  first. Each operation passes its argument to the backend and returns what the backend
  returns; the record is written on the backend's side of the adapter, from the
  argument that arrived, and the collector cannot read or write it.
\<close>

definition recording :: "'b GarbageCollector \<Rightarrow> ('b \<times> call list) GarbageCollector" where
  "recording gc =
     \<lparr>ReadyState = (\<lambda>(b, cs).
        case ReadyState gc b of (r, b') \<Rightarrow> (r, (b', CallReadyState (fst r) (snd r) # cs))),
      Now = (\<lambda>(b, cs).
        case Now gc b of (r, b') \<Rightarrow> (r, (b', CallNow r # cs))),
      TxIDBefore = (\<lambda>threshold (b, cs).
        case TxIDBefore gc threshold b of (r, b') \<Rightarrow> (r, (b', CallTxIDBefore threshold r # cs))),
      DeleteBeforeTx = (\<lambda>watermark (b, cs).
        case DeleteBeforeTx gc watermark b of
          (r, b') \<Rightarrow> (r, (b', CallDeleteBeforeTx watermark r # cs))),
      MarkGCCompleted = (\<lambda>(b, cs). (MarkGCCompleted gc b, CallMarkGCCompleted # cs)),
      ResetGCCompleted = (\<lambda>(b, cs). (ResetGCCompleted gc b, CallResetGCCompleted # cs))\<rparr>"

text \<open>
  A collector put in front of the recording backend, with an empty record; the record of
  a collector; and the collector without the record. A collector behaves the same in
  front of a backend and in front of its recording wrapper (lemmas \<open>RunOnce_forget\<close>
  and \<open>start_forget\<close>).
\<close>

definition watch :: "'b gc_state \<Rightarrow> ('b \<times> call list) gc_state" where
  "watch s = \<lparr>backend = (backend s, []), clock = clock s, failureCounter = failureCounter s,
              successCounter = successCounter s, logged = logged s\<rparr>"

definition received :: "('b \<times> call list) gc_state \<Rightarrow> call list" where
  "received s = snd (backend s)"

definition forget :: "('b \<times> call list) gc_state \<Rightarrow> 'b gc_state" where
  "forget s = \<lparr>backend = fst (backend s), clock = clock s, failureCounter = failureCounter s,
               successCounter = successCounter s, logged = logged s\<rparr>"

subsection \<open>Notions used to state the properties\<close>

text \<open>What a received call failed with, if it failed, in the collector's taxonomy.\<close>

fun callError :: "call \<Rightarrow> gc_error option" where
  "callError (CallReadyState ready msg) = (if ready then None else Some (NotReady msg))"
| "callError (CallNow r) = (case r of Inl err \<Rightarrow> Some (BackendTransient err) | Inr t \<Rightarrow> None)"
| "callError (CallTxIDBefore th r) = (case r of Inl err \<Rightarrow> Some (BackendTransient err) | Inr rv \<Rightarrow> None)"
| "callError (CallDeleteBeforeTx wm r) = (case r of Inl err \<Rightarrow> Some (BackendTransient err) | Inr n \<Rightarrow> None)"
| "callError CallMarkGCCompleted = None"
| "callError CallResetGCCompleted = None"

text \<open>
  How many received calls failed, how many were completion marks, and how many logged
  errors are aborts by timeout.
\<close>

definition failing :: "call list \<Rightarrow> nat" where
  "failing cs = length (filter (\<lambda>k. callError k \<noteq> None) cs)"

definition marks :: "call list \<Rightarrow> nat" where
  "marks cs = length (filter (\<lambda>k. k = CallMarkGCCompleted) cs)"

definition aborts :: "gc_error list \<Rightarrow> nat" where
  "aborts es = length (filter (\<lambda>e. e = DeadlineExceeded) es)"

text \<open>
  A record of calls (newest first) is justified for a window when every
  \<open>DeleteBeforeTx\<close> in it received the revision that the call just before it,
  \<open>TxIDBefore\<close>, returned for the threshold \<open>t - window\<close>, where \<open>t\<close> is
  what the call before that, the backend's \<open>Now\<close>, returned.
\<close>

fun justified :: "int \<Rightarrow> call list \<Rightarrow> bool" where
  "justified w (CallDeleteBeforeTx wm r # CallTxIDBefore th (Inr rv) # CallNow (Inr t) # cs) =
     (th = t - w \<and> wm = rv \<and> justified w cs)"
| "justified w (CallDeleteBeforeTx wm r # cs) = False"
| "justified w (c # cs) = justified w cs"
| "justified w [] = True"

text \<open>
  What a try guarantees, stage by stage: the counters and the log are untouched and the
  clock does not go back (\<open>frame\<close>); an error is the context's, with no failed call
  received, or the one the newest call failed with, the only failed call of the try; a
  success ends in the completion mark after the delete that returned the counts, with
  no failed call; only a success marks completion; and a try that the context does
  not end started under a live context and takes at least one call's time.
\<close>

definition frame :: "'b gc_state \<Rightarrow> 'b gc_state \<Rightarrow> bool" where
  "frame s s' \<longleftrightarrow> failureCounter s' = failureCounter s \<and> successCounter s' = successCounter s
       \<and> logged s' = logged s \<and> clock s \<le> clock s'"

definition outcome ::
  "ctx \<Rightarrow> nat \<Rightarrow> ('b \<times> call list) gc_state \<Rightarrow> gc_error + DeletionCounts
     \<Rightarrow> ('b \<times> call list) gc_state \<Rightarrow> bool" where
  "outcome c latency s r s' \<longleftrightarrow>
     (case r of
        Inl e \<Rightarrow>
          marks (received s') = marks (received s)
          \<and> (ctxErr c (clock s') = Some e \<and> failing (received s') = failing (received s)
             \<or> (\<exists>k rest. received s' = k # rest \<and> callError k = Some e)
                 \<and> failing (received s') = Suc (failing (received s))
                 \<and> ctxErr c (clock s) = None \<and> clock s + latency \<le> clock s')
      | Inr counts \<Rightarrow>
          (\<exists>w rest. received s' = CallMarkGCCompleted # CallDeleteBeforeTx w (Inr counts) # rest)
          \<and> failing (received s') = failing (received s)
          \<and> ctxErr c (clock s) = None \<and> clock s + latency \<le> clock s')"

text \<open>What step 6 does to the state after a try that ended in \<open>e\<close>.\<close>

definition failureStep :: "gc_error \<Rightarrow> 'b gc_state \<Rightarrow> 'b gc_state \<Rightarrow> bool" where
  "failureStep e s s' \<longleftrightarrow>
     backend s' = backend s \<and> logged s' = logged s \<and> clock s \<le> clock s'
     \<and> successCounter s' = successCounter s
     \<and> failureCounter s' = failureCounter s + (if e = Cancelled then 0 else 1)"

text \<open>
  The safety relation between the state before and after a run in front of the
  recording backend: the clock and the failure counter do not go back, and a justified
  record stays justified.
\<close>

definition safe :: "int \<Rightarrow> ('b \<times> call list) gc_state \<Rightarrow> ('b \<times> call list) gc_state \<Rightarrow> bool" where
  "safe w s s' \<longleftrightarrow>
     clock s \<le> clock s' \<and> failureCounter s \<le> failureCounter s'
     \<and> (justified w (received s) \<longrightarrow> justified w (received s'))"


subsection \<open>Sample runs\<close>

text \<open>
  A collector that has not run yet, small configurations, and the two deleters of the
  test suite: one that always fails and one that fails on revisions 1 and 2.
\<close>

definition initialState :: "'b \<Rightarrow> 'b gc_state" where
  "initialState b = \<lparr>backend = b, clock = 0, failureCounter = 0, successCounter = 0, logged = []\<rparr>"

definition testConfig :: gc_config where
  "testConfig = \<lparr>interval = 10, window = 1000, timeout = 60, maxElapsedTime = 30, backoffFactor = 2\<rparr>"

definition patientConfig :: gc_config where
  "patientConfig = \<lparr>interval = 10, window = 1000, timeout = 60, maxElapsedTime = 50, backoffFactor = 2\<rparr>"

definition hastyConfig :: gc_config where
  "hastyConfig = \<lparr>interval = 10, window = 1000, timeout = 60, maxElapsedTime = 5, backoffFactor = 2\<rparr>"

definition alwaysFailing :: "fakeGC gc_state" where
  "alwaysFailing = initialState (newFakeGC alwaysErrorDeleter 5000)"

definition failingTwice :: "fakeGC gc_state" where
  "failingTwice = initialState (newFakeGC (revisionErrorDeleter [1, 2]) 5000)"

text \<open>
  Modelled from the spec: the state of a backend in the words of the adapter contract,
  for sample runs in which the watermark depends on the threshold. It keeps the commit
  time of every revision (revision \<open>n\<close> is the \<open>n\<close>-th commit, in order
  of time), its own time, and the revision before which it has deleted.
\<close>

record ledger =
  commitTimes :: "int list"
  today :: int
  purgedBefore :: int

text \<open>
  Modelled from the spec: the operations of that backend. It is always ready,
  \<open>Now\<close> is its own time, \<open>TxIDBefore\<close> gives the highest revision
  committed at or before the threshold, and \<open>DeleteBeforeTx\<close> deletes the
  revisions before the watermark and counts them.
\<close>

definition ledgerTarget :: "ledger GarbageCollector" where
  "ledgerTarget =
     \<lparr>ReadyState = (\<lambda>g. ((True, ''ready''), g)),
      Now = (\<lambda>g. (Inr (today g), g)),
      TxIDBefore = (\<lambda>threshold g.
        (Inr (int (length (filter (\<lambda>t. t \<le> threshold) (commitTimes g)))), g)),
      DeleteBeforeTx = (\<lambda>watermark g.
        (Inr \<lparr>Relationships = 0, Transactions = nat (watermark - purgedBefore g), Namespaces = 0\<rparr>,
         g\<lparr>purgedBefore := max watermark (purgedBefore g)\<rparr>)),
      MarkGCCompleted = (\<lambda>g. g),
      ResetGCCompleted = (\<lambda>g. g)\<rparr>"

text \<open>
  A collector in front of such a backend: five revisions committed at the times 1000 to
  4800, the backend's time 5000, nothing deleted yet.
\<close>

definition fiveCommits :: "ledger gc_state" where
  "fiveCommits =
     initialState \<lparr>commitTimes = [1000, 3500, 3900, 4100, 4800], today = 5000, purgedBefore = 1\<rparr>"

section \<open>Properties of the alias computation\<close>

lemma mset_rangeOrder: "mset (rangeOrder cs xs) = mset xs"
proof (induction cs xs rule: rangeOrder.induct)
  case (3 c cs x xs)
  let ?l = "x # xs"
  let ?i = "c mod length ?l"
  have i: "?i < length ?l" by simp
  have "mset ?l = mset (take ?i ?l @ ?l ! ?i # drop (Suc ?i) ?l)"
    using id_take_nth_drop [OF i] by simp
  then show ?case using 3 by (simp add: Let_def del: take_Suc_Cons drop_Suc_Cons nth_Cons_Suc)
qed simp_all

lemma rangeOrder_complete: "mset ys = mset xs \<Longrightarrow> \<exists>cs. rangeOrder cs xs = ys"
proof (induction ys arbitrary: xs)
  case Nil
  then show ?case by simp
next
  case (Cons y ys)
  then have "y \<in> set xs" by (metis list.set_intros(1) mset_eq_setD)
  then obtain i where i: "i < length xs" "xs ! i = y" by (auto simp: in_set_conv_nth)
  let ?r = "take i xs @ drop (Suc i) xs"
  have xs: "xs = take i xs @ y # drop (Suc i) xs" using id_take_nth_drop i by blast
  have "mset xs = add_mset y (mset ?r)" by (subst xs) simp
  with Cons.prems have "mset ys = mset ?r" by simp
  from Cons.IH [OF this] obtain cs where cs: "rangeOrder cs ?r = ys" by blast
  from i obtain x xs' where c: "xs = x # xs'" by (cases xs) auto
  have "rangeOrder (i # cs) (x # xs') = y # ys"
    using i cs unfolding c by (simp add: Let_def del: take_Suc_Cons drop_Suc_Cons nth_Cons_Suc)
  then show ?case unfolding c by blast
qed

lemma length_update_le: "length (AList.update k v al) \<le> Suc (length al)"
  by (induction al) auto

lemma classify_length_le:
  "length (workingSet (classify p r s)) \<le> Suc (length (workingSet s))"
  using length_update_le [of "Name r" _ "workingSet s"]
  by (auto simp: classify_def markDone_def split: option.splits)

lemma fold_classify_length_le:
  "length (workingSet (fold (classify p) rs s)) \<le> length (workingSet s) + length rs"
proof (induction rs arbitrary: s)
  case Nil
  show ?case by simp
next
  case (Cons r rs)
  show ?case
    using Cons.IH [of "classify p r s"] classify_length_le [of p r s] by simp
qed

lemma classifyAll_length_le:
  "length (workingSet (classifyAll ts)) \<le> length (nsDef_Relation ts)"
  using fold_classify_length_le [of "IsPermission ts" "nsDef_Relation ts" initial_state]
  by (simp add: classifyAll_def initial_state_def)

lemma length_loopTrace_le: "length (loopTrace order n s) \<le> length (workingSet s)"
proof (induction order n s rule: loopTrace.induct)
  case (1 order n s)
  show ?case
  proof (cases "workingSet s = []")
    case True
    then show ?thesis by simp
  next
    case False
    let ?s' = "pass (order n) s"
    show ?thesis
    proof (cases "length (workingSet ?s') = length (workingSet s)")
      case True
      with False show ?thesis by (cases "workingSet s") simp_all
    next
      case ne: False
      with pass_length_le [of "order n" s]
      have lt: "length (workingSet ?s') < length (workingSet s)" by simp
      have "length (loopTrace order (Suc n) ?s') \<le> length (workingSet ?s')"
        using "1.IH" [OF _ refl refl ne] False by simp
      with lt False ne show ?thesis by (simp add: Let_def)
    qed
  qed
qed

lemma set_delete: "set (AList.delete k al) = {e \<in> set al. fst e \<noteq> k}"
  by (auto simp: AList.delete_eq)

lemma resolveEntry_skip: "snd e \<notin> doneSet s \<Longrightarrow> resolveEntry e s = s"
  by (simp add: resolveEntry_def Let_def)

lemma resolveEntry_hit:
  "snd e \<in> doneSet s \<Longrightarrow>
     doneSet (resolveEntry e s) = insert (fst e) (doneSet s)
   \<and> workingSet (resolveEntry e s) = AList.delete (fst e) (workingSet s)"
  by (simp add: resolveEntry_def Let_def)

lemma resolvable_after:
  assumes "resolvable D ws k'" and "k' \<noteq> k"
  shows "resolvable (insert k D) (AList.delete k ws) k'"
  using assms
proof (induction rule: resolvable.induct)
  case (direct k' t)
  then show ?case by (auto intro: resolvable.direct simp: set_delete)
next
  case (chained k' t)
  show ?case
  proof (cases "t = k")
    case True
    with chained show ?thesis by (auto intro: resolvable.direct simp: set_delete)
  next
    case False
    with chained show ?thesis by (auto intro: resolvable.chained simp: set_delete)
  qed
qed

lemma resolvable_before:
  assumes "resolvable (insert k D) (AList.delete k ws) k'" and "(k, t) \<in> set ws" and "t \<in> D"
  shows "resolvable D ws k'"
  using assms
proof (induction rule: resolvable.induct)
  case (direct k' t')
  have k: "resolvable D ws k" using direct.prems by (rule resolvable.direct)
  from direct.hyps have in_ws: "(k', t') \<in> set ws" by (simp add: set_delete)
  show ?case
  proof (cases "t' = k")
    case True
    with in_ws k show ?thesis by (auto intro: resolvable.chained)
  next
    case False
    with direct.hyps in_ws show ?thesis by (auto intro: resolvable.direct)
  qed
next
  case (chained k' t')
  then show ?case by (auto intro: resolvable.chained simp: set_delete)
qed

lemma unresolved_resolveEntry:
  assumes "e \<in> set (workingSet s)"
  shows "unresolved (resolveEntry e s) = unresolved s"
proof (cases "snd e \<in> doneSet s")
  case False
  then show ?thesis by (simp add: resolveEntry_skip)
next
  case True
  obtain k t where e: "e = (k, t)" by (cases e)
  with assms True have kt: "(k, t) \<in> set (workingSet s)" "t \<in> doneSet s" by simp_all
  have k: "resolvable (doneSet s) (workingSet s) k" using kt by (rule resolvable.direct)
  have keys: "keysOf (resolveEntry e s) = keysOf s - {k}"
    using True e by (force simp: keysOf_def resolveEntry_hit set_delete)
  show ?thesis
    using True e k keys resolvable_after [of "doneSet s" "workingSet s" _ k]
      resolvable_before [OF _ kt]
    by (auto simp: unresolved_def resolveEntry_hit)
qed

lemma set_workingSet_resolveEntry:
  "set (workingSet (resolveEntry e s)) = (if snd e \<in> doneSet s then {x \<in> set (workingSet s). fst x \<noteq> fst e} else set (workingSet s))"
  by (simp add: resolveEntry_skip resolveEntry_hit set_delete)

lemma unresolved_fold:
  assumes "set es \<subseteq> set (workingSet s)" and "distinct (map fst es)"
  shows "unresolved (fold resolveEntry es s) = unresolved s"
  using assms
proof (induction es arbitrary: s)
  case Nil
  show ?case by simp
next
  case (Cons e es)
  have sub: "set es \<subseteq> set (workingSet (resolveEntry e s))"
  proof
    fix x assume x: "x \<in> set es"
    with Cons.prems(2) have "fst x \<noteq> fst e" by (metis distinct.simps(2) image_eqI list.simps(9) set_map)
    with x Cons.prems(1) show "x \<in> set (workingSet (resolveEntry e s))"
      by (auto simp: set_workingSet_resolveEntry)
  qed
  have "unresolved (fold resolveEntry es (resolveEntry e s)) = unresolved (resolveEntry e s)"
    using Cons.IH [OF sub] Cons.prems by simp
  also have "\<dots> = unresolved s"
    using Cons.prems by (simp add: unresolved_resolveEntry)
  finally show ?case by simp
qed

lemma distinct_keys_rangeOrder:
  "distinct (map fst ws) \<Longrightarrow> distinct (map fst (rangeOrder cs ws))"
proof -
  assume d: "distinct (map fst ws)"
  have "mset (map fst (rangeOrder cs ws)) = mset (map fst ws)"
    using mset_rangeOrder [of cs ws] by (metis mset_map)
  then show ?thesis using d by (metis mset_eq_imp_distinct_iff)
qed

lemma set_rangeOrder: "set (rangeOrder cs ws) = set ws"
  using mset_rangeOrder [of cs ws] by (metis set_mset_mset)

lemma unresolved_pass: "wsDistinct s \<Longrightarrow> unresolved (pass cs s) = unresolved s"
  by (simp add: pass_def wsDistinct_def unresolved_fold set_rangeOrder distinct_keys_rangeOrder)

lemma wsDistinct_resolveEntry: "wsDistinct s \<Longrightarrow> wsDistinct (resolveEntry e s)"
  by (cases "snd e \<in> doneSet s")
     (simp_all add: wsDistinct_def resolveEntry_skip resolveEntry_hit AList.distinct_delete)

lemma wsDistinct_fold: "wsDistinct s \<Longrightarrow> wsDistinct (fold resolveEntry es s)"
  by (induction es arbitrary: s) (simp_all add: wsDistinct_resolveEntry)

lemma wsDistinct_pass: "wsDistinct s \<Longrightarrow> wsDistinct (pass cs s)"
  by (simp add: pass_def wsDistinct_fold)

lemma length_delete_less: "k \<in> fst ` set al \<Longrightarrow> length (AList.delete k al) < length al"
proof (induction al)
  case Nil
  then show ?case by simp
next
  case (Cons a al)
  then show ?case using length_delete_le [of k al] by (cases "fst a = k") (auto simp: less_Suc_eq_le)
qed

lemma fold_shrinks:
  assumes "set es \<subseteq> set (workingSet s)" and "\<exists>e \<in> set es. snd e \<in> doneSet s"
  shows "length (workingSet (fold resolveEntry es s)) < length (workingSet s)"
  using assms
proof (induction es arbitrary: s)
  case Nil
  then show ?case by simp
next
  case (Cons e es)
  show ?case
  proof (cases "snd e \<in> doneSet s")
    case True
    have "fst e \<in> fst ` set (workingSet s)" using Cons.prems(1) by auto
    then have "length (workingSet (resolveEntry e s)) < length (workingSet s)"
      using True by (simp add: resolveEntry_hit length_delete_less)
    with fold_resolveEntry_length_le [of es "resolveEntry e s"] show ?thesis by simp
  next
    case False
    with Cons.prems have "\<exists>e \<in> set es. snd e \<in> doneSet s" by auto
    with Cons.IH [of s] Cons.prems(1) False show ?thesis by (simp add: resolveEntry_skip)
  qed
qed

lemma fold_idle: "\<forall>e \<in> set es. snd e \<notin> doneSet s \<Longrightarrow> fold resolveEntry es s = s"
  by (induction es) (simp_all add: resolveEntry_skip)

lemma stalled_iff:
  "length (workingSet (pass cs s)) = length (workingSet s) \<longleftrightarrow> (\<forall>e \<in> set (workingSet s). snd e \<notin> doneSet s)"
proof
  assume eq: "length (workingSet (pass cs s)) = length (workingSet s)"
  show "\<forall>e \<in> set (workingSet s). snd e \<notin> doneSet s"
  proof (rule ccontr)
    assume "\<not> (\<forall>e \<in> set (workingSet s). snd e \<notin> doneSet s)"
    then have "\<exists>e \<in> set (rangeOrder cs (workingSet s)). snd e \<in> doneSet s"
      by (simp add: set_rangeOrder)
    from fold_shrinks [OF _ this] eq show False by (simp add: pass_def set_rangeOrder)
  qed
next
  assume "\<forall>e \<in> set (workingSet s). snd e \<notin> doneSet s"
  then show "length (workingSet (pass cs s)) = length (workingSet s)"
    by (simp add: pass_def fold_idle set_rangeOrder)
qed

lemma stalled_pass: "length (workingSet (pass cs s)) = length (workingSet s) \<Longrightarrow> pass cs s = s"
  using stalled_iff [of cs s] by (simp add: pass_def fold_idle set_rangeOrder)

lemma stalled_unresolved:
  assumes "\<forall>e \<in> set (workingSet s). snd e \<notin> doneSet s"
  shows "unresolved s = keysOf s"
proof -
  have "\<not> resolvable (doneSet s) (workingSet s) k" for k
  proof
    assume "resolvable (doneSet s) (workingSet s) k"
    then show False using assms by (induction rule: resolvable.induct) auto
  qed
  then show ?thesis by (simp add: unresolved_def)
qed

lemma sort_keys: "wsDistinct s \<Longrightarrow> sort (map fst (workingSet s)) = sorted_list_of_set (keysOf s)"
  by (simp add: wsDistinct_def keysOf_def sorted_list_of_set_sort_remdups distinct_remdups_id flip: set_map)

lemma resolveLoop_error:
  "wsDistinct s \<Longrightarrow>
   (resolveLoop order n s = Inl e) =
     (unresolved s \<noteq> {} \<and> e = cycleMessage (sorted_list_of_set (unresolved s)))"
proof (induction order n s rule: resolveLoop.induct)
  case (1 order n s)
  show ?case
  proof (cases "workingSet s = []")
    case True
    then show ?thesis by (simp add: unresolved_def keysOf_def)
  next
    case False
    let ?s' = "pass (order n) s"
    show ?thesis
    proof (cases "length (workingSet ?s') = length (workingSet s)")
      case True
      then have same: "?s' = s" by (rule stalled_pass)
      have u: "unresolved s = keysOf s"
        using True by (simp add: stalled_iff stalled_unresolved)
      have ne: "keysOf s \<noteq> {}" using False by (simp add: keysOf_def)
      have "resolveLoop order n s = Inl (cycleError (workingSet s))"
        using False True same by simp
      then show ?thesis
        using u ne sort_keys [OF "1.prems"] by (auto simp: cycleError_def cycleMessage_def)
    next
      case ne: False
      have "resolveLoop order n s = resolveLoop order (Suc n) ?s'"
        using False ne by (simp add: Let_def)
      moreover have "(resolveLoop order (Suc n) ?s' = Inl e) =
        (unresolved ?s' \<noteq> {} \<and> e = cycleMessage (sorted_list_of_set (unresolved ?s')))"
        using "1.IH" [OF _ refl refl ne] False "1.prems" by (simp add: wsDistinct_pass)
      ultimately show ?thesis using "1.prems" by (simp add: unresolved_pass)
    qed
  qed
qed

lemma classify_alt:
  "classify p r s =
     (case aliasTarget r of
        None \<Rightarrow> markDone (Name r) s
      | Some t \<Rightarrow>
          if \<not> p t then (markDone (Name r) s)\<lparr>aliases := (aliases s)(Name r \<mapsto> t)\<rparr>
          else s\<lparr>workingSet := AList.update (Name r) t (workingSet s)\<rparr>)"
  by (simp add: classify_def aliasTarget_def split: option.splits)

lemma keysOf_update: "keysOf (s\<lparr>workingSet := AList.update k v (workingSet s)\<rparr>) = insert k (keysOf s)"
  by (simp add: keysOf_def AList.dom_update)

lemma classify_plain:
  "aliasTarget r = None \<Longrightarrow> classify p r s = markDone (Name r) s"
  by (simp add: classify_alt)

lemma classify_relation:
  "aliasTarget r = Some t \<Longrightarrow> \<not> p t \<Longrightarrow>
     classify p r s = (markDone (Name r) s)\<lparr>aliases := (aliases s)(Name r \<mapsto> t)\<rparr>"
  by (simp add: classify_alt)

lemma classify_permission:
  "aliasTarget r = Some t \<Longrightarrow> p t \<Longrightarrow>
     classify p r s = s\<lparr>workingSet := AList.update (Name r) t (workingSet s)\<rparr>"
  by (simp add: classify_alt)

lemma firstInv_markDone:
  assumes "firstInv A s" and "n \<notin> keysOf s"
  shows "firstInv A (markDone n s)"
  using assms unfolding firstInv_def markDone_def keysOf_def wsDistinct_def by simp

lemma firstInv_alias:
  assumes "firstInv A s" and "n \<notin> keysOf s" and "n \<in> A" and "t \<notin> A"
  shows "firstInv A ((markDone n s)\<lparr>aliases := (aliases s)(n \<mapsto> t)\<rparr>)"
  using assms unfolding firstInv_def markDone_def keysOf_def wsDistinct_def by simp

lemma firstInv_working:
  assumes "firstInv A s" and "n \<notin> doneSet s" and "n \<in> A"
  shows "firstInv A (s\<lparr>workingSet := AList.update n t (workingSet s)\<rparr>)"
  using assms unfolding firstInv_def keysOf_def wsDistinct_def
  by (simp add: AList.dom_update AList.distinct_update)

lemma classify_firstInv:
  assumes "firstInv A s" and "Name r \<notin> doneSet s \<union> keysOf s"
    and "\<forall>t. aliasTarget r = Some t \<longrightarrow> Name r \<in> A \<and> (\<not> p t \<longrightarrow> t \<notin> A)"
  shows "firstInv A (classify p r s)"
proof (cases "aliasTarget r")
  case None
  with assms(1,2) show ?thesis by (simp add: classify_plain firstInv_markDone)
next
  case (Some t)
  show ?thesis
  proof (cases "p t")
    case False
    with Some assms show ?thesis by (simp add: classify_relation firstInv_alias)
  next
    case True
    with Some assms show ?thesis by (simp add: classify_permission firstInv_working)
  qed
qed

lemma classify_names:
  assumes "x \<in> doneSet (classify p r s) \<union> keysOf (classify p r s)"
  shows "x = Name r \<or> x \<in> doneSet s \<union> keysOf s"
proof (cases "aliasTarget r")
  case None
  with assms show ?thesis by (auto simp: classify_plain markDone_def keysOf_def)
next
  case (Some t)
  with assms show ?thesis
    by (cases "p t")
       (auto simp: classify_relation classify_permission markDone_def keysOf_def AList.dom_update)
qed

lemma fold_classify_firstInv:
  assumes "firstInv A s" and "distinct (map Name rs)"
    and "\<forall>r \<in> set rs. Name r \<notin> doneSet s \<union> keysOf s"
    and "\<forall>r \<in> set rs. \<forall>t. aliasTarget r = Some t \<longrightarrow> Name r \<in> A \<and> (\<not> p t \<longrightarrow> t \<notin> A)"
  shows "firstInv A (fold (classify p) rs s)"
  using assms
proof (induction rs arbitrary: s)
  case Nil
  then show ?case by simp
next
  case (Cons r rs)
  have new: "Name r \<notin> doneSet s \<union> keysOf s"
    using Cons.prems(3) by (meson list.set_intros(1))
  have tgt: "\<forall>t. aliasTarget r = Some t \<longrightarrow> Name r \<in> A \<and> (\<not> p t \<longrightarrow> t \<notin> A)"
    using Cons.prems(4) by (meson list.set_intros(1))
  have inv: "firstInv A (classify p r s)"
    using Cons.prems(1) new tgt by (rule classify_firstInv)
  have d: "distinct (map Name rs)" using Cons.prems(2) by simp
  have fresh: "\<forall>r' \<in> set rs. Name r' \<notin> doneSet (classify p r s) \<union> keysOf (classify p r s)"
  proof
    fix r' assume r': "r' \<in> set rs"
    then have "Name r' \<noteq> Name r" using Cons.prems(2)
      by (metis distinct.simps(2) image_eqI list.simps(9) set_map)
    moreover have "Name r' \<notin> doneSet s \<union> keysOf s"
      using Cons.prems(3) r' by (meson list.set_intros(2))
    ultimately show "Name r' \<notin> doneSet (classify p r s) \<union> keysOf (classify p r s)"
      using classify_names [of "Name r'" p r s] by (rule_tac notI) simp
  qed
  have rest: "\<forall>r \<in> set rs. \<forall>t. aliasTarget r = Some t \<longrightarrow> Name r \<in> A \<and> (\<not> p t \<longrightarrow> t \<notin> A)"
    using Cons.prems(4) by (meson list.set_intros(2))
  show ?case
    using Cons.IH [OF inv d fresh rest] by simp
qed

lemma firstInv_secondInv: "firstInv A s \<Longrightarrow> secondInv s"
  by (auto simp: firstInv_def secondInv_def)

lemma resolveEntry_aliases:
  "snd e \<in> doneSet s \<Longrightarrow>
     aliases (resolveEntry e s) =
       (aliases s)(fst e \<mapsto> (case aliases s (snd e) of Some alias \<Rightarrow> alias | None \<Rightarrow> snd e))"
  by (simp add: resolveEntry_def Let_def)

lemma resolveEntry_secondInv:
  assumes "secondInv s" and "e \<in> set (workingSet s)"
  shows "secondInv (resolveEntry e s)"
proof (cases "snd e \<in> doneSet s")
  case False
  with assms show ?thesis by (simp add: resolveEntry_skip)
next
  case True
  let ?s' = "resolveEntry e s"
  have k: "fst e \<in> keysOf s" using assms(2) by (simp add: keysOf_def)
  have keys: "keysOf ?s' = keysOf s - {fst e}"
    using True by (force simp: keysOf_def resolveEntry_hit set_delete)
  have dn: "doneSet ?s' = insert (fst e) (doneSet s)" using True by (simp add: resolveEntry_hit)
  have al: "aliases ?s' = (aliases s)(fst e \<mapsto> (case aliases s (snd e) of Some alias \<Rightarrow> alias | None \<Rightarrow> snd e))"
    using True by (rule resolveEntry_aliases)
  have old: "\<And>k v. aliases s k = Some v \<Longrightarrow> v \<notin> dom (aliases s) \<and> v \<notin> keysOf s"
    using assms(1) by (simp add: secondInv_def)
  have disj: "doneSet s \<inter> keysOf s = {}" using assms(1) by (simp add: secondInv_def)
  have new: "v \<notin> dom (aliases s) \<and> v \<notin> keysOf s"
    if "v = (case aliases s (snd e) of Some alias \<Rightarrow> alias | None \<Rightarrow> snd e)" for v
  proof (cases "aliases s (snd e)")
    case None
    with that True disj show ?thesis by auto
  next
    case (Some a)
    with that old [of "snd e" a] show ?thesis by simp
  qed
  have vals: "\<forall>k v. aliases ?s' k = Some v \<longrightarrow> v \<notin> dom (aliases ?s') \<and> v \<notin> keysOf ?s'"
  proof (intro allI impI)
    fix k' v assume a: "aliases ?s' k' = Some v"
    have "v \<notin> dom (aliases s) \<and> v \<notin> keysOf s"
    proof (cases "k' = fst e")
      case True
      with a al new show ?thesis by simp
    next
      case False
      with a al old show ?thesis by simp
    qed
    with k show "v \<notin> dom (aliases ?s') \<and> v \<notin> keysOf ?s'"
      unfolding keys al by auto
  qed
  show ?thesis
    unfolding secondInv_def
    using vals disj assms(1) wsDistinct_resolveEntry [of s e]
    by (auto simp: keys dn secondInv_def)
qed

lemma fold_secondInv:
  assumes "secondInv s" and "set es \<subseteq> set (workingSet s)" and "distinct (map fst es)"
  shows "secondInv (fold resolveEntry es s)"
  using assms
proof (induction es arbitrary: s)
  case Nil
  then show ?case by simp
next
  case (Cons e es)
  have inv: "secondInv (resolveEntry e s)"
    using Cons.prems by (intro resolveEntry_secondInv) auto
  have sub: "set es \<subseteq> set (workingSet (resolveEntry e s))"
  proof
    fix x assume x: "x \<in> set es"
    with Cons.prems(3) have "fst x \<noteq> fst e" by (metis distinct.simps(2) image_eqI list.simps(9) set_map)
    with x Cons.prems(2) show "x \<in> set (workingSet (resolveEntry e s))"
      by (auto simp: set_workingSet_resolveEntry)
  qed
  show ?case using Cons.IH [OF inv sub] Cons.prems(3) by simp
qed

lemma pass_secondInv: "secondInv s \<Longrightarrow> secondInv (pass cs s)"
  unfolding pass_def
  by (rule fold_secondInv) (simp_all add: set_rangeOrder distinct_keys_rangeOrder secondInv_def wsDistinct_def)

lemma resolveLoop_secondInv:
  "secondInv s \<Longrightarrow> resolveLoop order n s = Inr m \<Longrightarrow> m k = Some v \<Longrightarrow> m v = None"
proof (induction order n s rule: resolveLoop.induct)
  case (1 order n s)
  show ?case
  proof (cases "workingSet s = []")
    case True
    with "1.prems" have "m = aliases s" by simp
    with "1.prems" show ?thesis by (auto simp: secondInv_def)
  next
    case False
    let ?s' = "pass (order n) s"
    have ne: "length (workingSet ?s') \<noteq> length (workingSet s)"
      using "1.prems"(2) False by (auto simp: Let_def split: if_splits)
    then have "resolveLoop order (Suc n) ?s' = Inr m"
      using "1.prems"(2) False by (simp add: Let_def)
    with "1.IH" [OF _ refl refl ne] False "1.prems" show ?thesis
      by (simp add: pass_secondInv)
  qed
qed

lemma firstInv_initial: "firstInv A initial_state"
  by (simp add: firstInv_def initial_state_def keysOf_def wsDistinct_def)

lemma aliasTarget_direct: "r \<in> set rels \<Longrightarrow> aliasTarget r = Some t \<Longrightarrow> Name r \<in> directAliases rels"
  by (auto simp: directAliases_def)

lemma wsDistinct_classify: "wsDistinct s \<Longrightarrow> wsDistinct (classify p r s)"
proof (cases "aliasTarget r")
  case None
  assume "wsDistinct s"
  with None show ?thesis by (simp add: classify_plain markDone_def wsDistinct_def)
next
  case (Some t)
  assume "wsDistinct s"
  with Some show ?thesis
    by (cases "p t")
       (simp_all add: classify_relation classify_permission markDone_def wsDistinct_def
          AList.distinct_update)
qed

lemma wsDistinct_fold_classify: "wsDistinct s \<Longrightarrow> wsDistinct (fold (classify p) rs s)"
  by (induction rs arbitrary: s) (simp_all add: wsDistinct_classify)

lemma wsDistinct_classifyAll: "wsDistinct (classifyAll ts)"
  unfolding classifyAll_def
  by (rule wsDistinct_fold_classify) (simp add: wsDistinct_def initial_state_def)

lemma resolveLoop_trace:
  "(resolveLoop order n s = Inl e) =
     ((\<exists>i<length (loopTrace order n s).
          workingSet (pass (order (n + i)) (loopTrace order n s ! i))
            = workingSet (loopTrace order n s ! i))
      \<and> e = cycleError (workingSet (last (loopTrace order n s))))"
proof (induction order n s rule: resolveLoop.induct)
  case (1 order n s)
  show ?case
  proof (cases "workingSet s = []")
    case True
    then show ?thesis by simp
  next
    case False
    let ?s' = "pass (order n) s"
    show ?thesis
    proof (cases "length (workingSet ?s') = length (workingSet s)")
      case True
      then have same: "?s' = s" by (rule stalled_pass)
      have tr: "loopTrace order n s = [s]" using False True by simp
      have "resolveLoop order n s = Inl (cycleError (workingSet s))"
        using False True same by simp
      then show ?thesis unfolding tr using same by auto
    next
      case ne: False
      let ?tr = "loopTrace order (Suc n) ?s'"
      have tr: "loopTrace order n s = s # ?tr" using False ne by (simp add: Let_def)
      have run: "resolveLoop order n s = resolveLoop order (Suc n) ?s'"
        using False ne by (simp add: Let_def)
      have IH: "(resolveLoop order (Suc n) ?s' = Inl e) =
        ((\<exists>i<length ?tr. workingSet (pass (order (Suc n + i)) (?tr ! i)) = workingSet (?tr ! i))
         \<and> e = cycleError (workingSet (last ?tr)))"
        using "1.IH" [OF _ refl refl ne] False by simp
      have first: "workingSet (pass (order n) s) \<noteq> workingSet s" using ne by auto
      have ex: "(\<exists>i<length (s # ?tr). workingSet (pass (order (n + i)) ((s # ?tr) ! i)) = workingSet ((s # ?tr) ! i))
          = (\<exists>i<length ?tr. workingSet (pass (order (Suc n + i)) (?tr ! i)) = workingSet (?tr ! i))"
        (is "?L = ?R")
      proof
        assume ?L
        then obtain i where i: "i < length (s # ?tr)"
          "workingSet (pass (order (n + i)) ((s # ?tr) ! i)) = workingSet ((s # ?tr) ! i)" by blast
        with first obtain j where j: "i = Suc j" by (cases i) auto
        with i show ?R by auto
      next
        assume ?R
        then obtain j where "j < length ?tr"
          "workingSet (pass (order (Suc n + j)) (?tr ! j)) = workingSet (?tr ! j)" by blast
        then have "Suc j < length (s # ?tr) \<and>
          workingSet (pass (order (n + Suc j)) ((s # ?tr) ! Suc j)) = workingSet ((s # ?tr) ! Suc j)"
          by simp
        then show ?L by blast
      qed
      have lst: "?R \<Longrightarrow> last (s # ?tr) = last ?tr" by auto
      show ?thesis unfolding tr run IH ex using lst by auto
    qed
  qed
qed

lemma closed_resolveEntry: "closed s \<Longrightarrow> closed (resolveEntry e s)"
proof (cases "snd e \<in> doneSet s")
  case False
  assume "closed s"
  with False show ?thesis by (simp add: resolveEntry_skip)
next
  case True
  assume c: "closed s"
  have keys: "keysOf (resolveEntry e s) = keysOf s - {fst e}"
    using True by (force simp: keysOf_def resolveEntry_hit set_delete)
  show ?thesis
    unfolding closed_def keys
    using c True by (auto simp: closed_def resolveEntry_hit set_delete)
qed

lemma closed_fold: "closed s \<Longrightarrow> closed (fold resolveEntry es s)"
  by (induction es arbitrary: s) (simp_all add: closed_resolveEntry)

lemma closed_pass: "closed s \<Longrightarrow> closed (pass cs s)"
  by (simp add: pass_def closed_fold)

lemma closed_loopTrace: "closed s \<Longrightarrow> x \<in> set (loopTrace order n s) \<Longrightarrow> closed x"
proof (induction order n s rule: loopTrace.induct)
  case (1 order n s)
  show ?case
  proof (cases "workingSet s = []")
    case True
    with "1.prems" show ?thesis by simp
  next
    case False
    let ?s' = "pass (order n) s"
    show ?thesis
    proof (cases "length (workingSet ?s') = length (workingSet s)")
      case True
      with False "1.prems" show ?thesis by simp
    next
      case ne: False
      with False "1.prems"(2) have "x = s \<or> x \<in> set (loopTrace order (Suc n) ?s')"
        by (simp add: Let_def)
      then show ?thesis
      proof
        assume "x = s" with "1.prems"(1) show ?thesis by simp
      next
        assume "x \<in> set (loopTrace order (Suc n) ?s')"
        with "1.IH" [OF _ refl refl ne] False "1.prems"(1) show ?thesis
          by (simp add: closed_pass)
      qed
    qed
  qed
qed

lemma set_update_subset: "set (AList.update k v al) \<subseteq> insert (k, v) (set al)"
  by (induction al) auto

lemma permTargets_classify: "permTargets p s \<Longrightarrow> permTargets p (classify p r s)"
proof (cases "aliasTarget r")
  case None
  assume "permTargets p s"
  with None show ?thesis by (simp add: classify_plain markDone_def permTargets_def)
next
  case (Some t)
  assume a: "permTargets p s"
  show ?thesis
  proof (cases "p t")
    case False
    with Some a show ?thesis by (simp add: classify_relation markDone_def permTargets_def)
  next
    case True
    with Some a set_update_subset [of "Name r" t "workingSet s"] show ?thesis
      by (auto simp: classify_permission permTargets_def)
  qed
qed

lemma permTargets_fold: "permTargets p s \<Longrightarrow> permTargets p (fold (classify p) rs s)"
  by (induction rs arbitrary: s) (simp_all add: permTargets_classify)

lemma classify_covers:
  "insert (Name r) (doneSet s \<union> keysOf s) \<subseteq> doneSet (classify p r s) \<union> keysOf (classify p r s)"
proof (cases "aliasTarget r")
  case None
  then show ?thesis by (auto simp: classify_plain markDone_def keysOf_def)
next
  case (Some t)
  then show ?thesis
    by (cases "p t")
       (auto simp: classify_relation classify_permission markDone_def keysOf_def AList.dom_update)
qed

lemma fold_classify_covers:
  "set (map Name rs) \<union> (doneSet s \<union> keysOf s)
     \<subseteq> doneSet (fold (classify p) rs s) \<union> keysOf (fold (classify p) rs s)"
proof (induction rs arbitrary: s)
  case Nil
  show ?case by simp
next
  case (Cons r rs)
  have "set (map Name (r # rs)) \<union> (doneSet s \<union> keysOf s)
      \<subseteq> set (map Name rs) \<union> (doneSet (classify p r s) \<union> keysOf (classify p r s))"
    using classify_covers [of r s p] by auto
  also have "\<dots> \<subseteq> doneSet (fold (classify p) rs (classify p r s))
      \<union> keysOf (fold (classify p) rs (classify p r s))"
    by (rule Cons.IH)
  finally show ?case by simp
qed

lemma closed_classifyAll:
  assumes "\<forall>t. IsPermission ts t \<longrightarrow> t \<in> set (map Name (nsDef_Relation ts))"
  shows "closed (classifyAll ts)"
proof -
  let ?s = "classifyAll ts"
  have "permTargets (IsPermission ts) ?s"
    unfolding classifyAll_def
    by (rule permTargets_fold) (simp add: permTargets_def initial_state_def)
  moreover have "set (map Name (nsDef_Relation ts)) \<subseteq> doneSet ?s \<union> keysOf ?s"
    using fold_classify_covers [of "nsDef_Relation ts" initial_state "IsPermission ts"]
    by (simp add: classifyAll_def)
  ultimately show ?thesis
    using assms unfolding closed_def permTargets_def by blast
qed

lemma loopTrace_last_stalled:
  assumes "resolveLoop order n s = Inl e"
  shows "loopTrace order n s \<noteq> [] \<and> (\<forall>x \<in> set (workingSet (last (loopTrace order n s))).
           snd x \<notin> doneSet (last (loopTrace order n s)))"
  using assms
proof (induction order n s rule: resolveLoop.induct)
  case (1 order n s)
  show ?case
  proof (cases "workingSet s = []")
    case True
    with "1.prems" show ?thesis by simp
  next
    case False
    let ?s' = "pass (order n) s"
    show ?thesis
    proof (cases "length (workingSet ?s') = length (workingSet s)")
      case True
      then have "\<forall>x \<in> set (workingSet s). snd x \<notin> doneSet s" by (simp add: stalled_iff)
      with False True show ?thesis by simp
    next
      case ne: False
      have "resolveLoop order (Suc n) ?s' = Inl e"
        using "1.prems" False ne by (simp add: Let_def)
      with "1.IH" [OF _ refl refl ne] False
      have "loopTrace order (Suc n) ?s' \<noteq> [] \<and> (\<forall>x \<in> set (workingSet (last (loopTrace order (Suc n) ?s'))).
           snd x \<notin> doneSet (last (loopTrace order (Suc n) ?s')))" by simp
      with False ne show ?thesis by (simp add: Let_def)
    qed
  qed
qed

lemma wsDistinct_loopTrace: "wsDistinct s \<Longrightarrow> x \<in> set (loopTrace order n s) \<Longrightarrow> wsDistinct x"
proof (induction order n s rule: loopTrace.induct)
  case (1 order n s)
  show ?case
  proof (cases "workingSet s = []")
    case True
    with "1.prems" show ?thesis by simp
  next
    case False
    let ?s' = "pass (order n) s"
    show ?thesis
    proof (cases "length (workingSet ?s') = length (workingSet s)")
      case True
      with False "1.prems" show ?thesis by simp
    next
      case ne: False
      with False "1.prems"(2) have "x = s \<or> x \<in> set (loopTrace order (Suc n) ?s')"
        by (simp add: Let_def)
      then show ?thesis
      proof
        assume "x = s" with "1.prems"(1) show ?thesis by simp
      next
        assume "x \<in> set (loopTrace order (Suc n) ?s')"
        with "1.IH" [OF _ refl refl ne] False "1.prems"(1) show ?thesis
          by (simp add: wsDistinct_pass)
      qed
    qed
  qed
qed

lemma resolveLoop_order_independent:
  assumes "wsDistinct s" and "resolveLoop order n s = Inl e"
  shows "resolveLoop order' n' s = Inl e"
  using assms resolveLoop_error [of s order n e] resolveLoop_error [of s order' n' e] by simp


lemma unresolved_loopTrace:
  "wsDistinct s \<Longrightarrow> x \<in> set (loopTrace order n s) \<Longrightarrow> unresolved x = unresolved s"
proof (induction order n s rule: loopTrace.induct)
  case (1 order n s)
  show ?case
  proof (cases "workingSet s = []")
    case True
    with "1.prems" show ?thesis by simp
  next
    case False
    let ?s' = "pass (order n) s"
    show ?thesis
    proof (cases "length (workingSet ?s') = length (workingSet s)")
      case True
      with False "1.prems" show ?thesis by simp
    next
      case ne: False
      with False "1.prems"(2) have "x = s \<or> x \<in> set (loopTrace order (Suc n) ?s')"
        by (simp add: Let_def)
      then show ?thesis
      proof
        assume "x = s" then show ?thesis by simp
      next
        assume "x \<in> set (loopTrace order (Suc n) ?s')"
        with "1.IH" [OF _ refl refl ne] False "1.prems"(1)
        have "unresolved x = unresolved ?s'" by (simp add: wsDistinct_pass)
        with "1.prems"(1) show ?thesis by (simp add: unresolved_pass)
      qed
    qed
  qed
qed

lemma joinBlank_listing:
  "names \<noteq> [] \<Longrightarrow>
     joinBlank names = concat (map (\<lambda>k. k @ '' '') (butlast names)) @ last names"
  by (induction names rule: joinBlank.induct) simp_all

lemma cycleError_listing:
  assumes "ws \<noteq> []"
  shows "cycleError ws
    = ''there exists a cycle in permissions: [''
        @ concat (map (\<lambda>k. k @ '' '') (butlast (sort (map fst ws))))
        @ last (sort (map fst ws)) @ '']''"
proof -
  from assms have "sort (map fst ws) \<noteq> []" by (metis length_0_conv length_map length_sort)
  then show ?thesis by (simp add: cycleError_def cycleMessage_def joinBlank_listing)
qed

text \<open>
  When the loop returns the error, the last state of the trace is stalled: its working
  set is not empty, holds each key once, and its keys are the unresolved permissions of
  the state the loop started from.
\<close>

lemma loopTrace_stuck:
  assumes "wsDistinct s" and "resolveLoop order n s = Inl e"
  shows "workingSet (last (loopTrace order n s)) \<noteq> []"
    and "wsDistinct (last (loopTrace order n s))"
    and "keysOf (last (loopTrace order n s)) = unresolved s"
proof -
  let ?x = "last (loopTrace order n s)"
  from loopTrace_last_stalled [OF assms(2)]
  have ne: "loopTrace order n s \<noteq> []" and stalled: "\<forall>e \<in> set (workingSet ?x). snd e \<notin> doneSet ?x"
    by simp_all
  from ne have mem: "?x \<in> set (loopTrace order n s)" by (rule last_in_set)
  show d: "wsDistinct ?x" using assms(1) mem by (rule wsDistinct_loopTrace)
  have "unresolved ?x = unresolved s" using assms(1) mem by (rule unresolved_loopTrace)
  with stalled_unresolved [OF stalled] show k: "keysOf ?x = unresolved s" by simp
  from resolveLoop_error [OF assms(1), of order n e] assms(2) have "unresolved s \<noteq> {}" by simp
  with k show "workingSet ?x \<noteq> []" by (auto simp: keysOf_def)
qed

section \<open>Claims about the alias computation\<close>

subsection \<open>Termination of the resolution loop\<close>

text \<open>
  Claim C8. \<open>computePermissionAliases\<close> terminates on every namespace: it is a total
  function whose loop was accepted with the size of the working set as measure. Every
  pass over a non-empty working set either leaves it strictly smaller or makes the loop
  return the cycle error, and the number of executed passes (the length of
  \<open>loopTrace\<close>) is at most the number of relations of the namespace.
\<close>

theorem computePermissionAliases_passes_bounded:
  "(\<forall>s. workingSet s \<noteq> [] \<longrightarrow>
        length (workingSet (pass (order n) s)) < length (workingSet s)
      \<or> (\<exists>e. resolveLoop order n s = Inl e))
   \<and> length (loopTrace order 0 (classifyAll typeSystem)) \<le> length (nsDef_Relation typeSystem)"
proof
  show "\<forall>s. workingSet s \<noteq> [] \<longrightarrow>
        length (workingSet (pass (order n) s)) < length (workingSet s)
      \<or> (\<exists>e. resolveLoop order n s = Inl e)"
  proof (intro allI impI)
    fix s :: alias_state
    assume ne: "workingSet s \<noteq> []"
    show "length (workingSet (pass (order n) s)) < length (workingSet s)
      \<or> (\<exists>e. resolveLoop order n s = Inl e)"
    proof (cases "length (workingSet (pass (order n) s)) = length (workingSet s)")
      case True
      with ne have "resolveLoop order n s = Inl (cycleError (workingSet (pass (order n) s)))"
        by simp
      then show ?thesis by blast
    next
      case False
      with pass_length_le [of "order n" s] show ?thesis by simp
    qed
  qed
next
  show "length (loopTrace order 0 (classifyAll typeSystem)) \<le> length (nsDef_Relation typeSystem)"
    using length_loopTrace_le [of order 0 "classifyAll typeSystem"]
      classifyAll_length_le [of typeSystem] by simp
qed

theorem computePermissionAliases_passes_bounded_witness:
  "workingSet (classifyAll basic_ns) \<noteq> []
   \<and> length (workingSet (pass (storedOrder 0) (classifyAll basic_ns)))
       < length (workingSet (classifyAll basic_ns))
   \<and> length (loopTrace storedOrder 0 (classifyAll basic_ns)) \<le> length (nsDef_Relation basic_ns)"
proof -
  have ne: "workingSet (classifyAll basic_ns) \<noteq> []"
    by (simp add: run_defs basic_ns_def)
  have ok: "\<not> (\<exists>e. resolveLoop storedOrder 0 (classifyAll basic_ns) = Inl e)"
    by (simp add: run_defs basic_ns_def)
  from computePermissionAliases_passes_bounded [of storedOrder 0 basic_ns] ne ok show ?thesis by blast
qed

subsection \<open>Resolved alias targets\<close>

text \<open>
  Claim C9 says that no value of the returned map is itself a key. That fails on two
  kinds of namespace. In \<open>legacy_ns\<close> the relation \<open>b\<close> carries a rewrite that
  directly refers to \<open>c\<close> but is not reported as a permission: the first loop
  records \<open>a \<mapsto> b\<close> as final although \<open>b\<close> is a key. In
  \<open>duplicate_ns\<close> the name \<open>t\<close> is declared twice, once without rewrite and once
  as an alias, so it is done and in the working set at once; when the pass visits
  \<open>a\<close> before \<open>t\<close> it records \<open>a \<mapsto> t\<close> and then makes \<open>t\<close> a key.
\<close>

theorem aliases_chain_counterexample:
  "lookupAlias (computePermissionAliases storedOrder legacy_ns) ''a'' = Some ''b''
   \<and> lookupAlias (computePermissionAliases storedOrder legacy_ns) ''b'' = Some ''c''
   \<and> lookupAlias (computePermissionAliases secondFirst duplicate_ns) ''a'' = Some ''t''
   \<and> lookupAlias (computePermissionAliases secondFirst duplicate_ns) ''t'' = Some ''v''"
  by (simp add: run_defs legacy_ns_def duplicate_ns_def)

text \<open>
  Claim C9, amended. When relation names are pairwise distinct and no alias target that
  \<open>IsPermission\<close> rejects is itself the name of a directly aliasing relation, then
  in every map returned without error no value is a key of the map: alias chains are
  collapsed to their terminal target, whatever the iteration order of the passes.
\<close>

theorem aliases_terminal:
  assumes "distinct (map Name (nsDef_Relation typeSystem))"
    and "\<forall>r \<in> set (nsDef_Relation typeSystem). \<forall>t.
           aliasTarget r = Some t \<and> \<not> IsPermission typeSystem t
             \<longrightarrow> t \<notin> directAliases (nsDef_Relation typeSystem)"
    and "computePermissionAliases order typeSystem = Inr m"
  shows "\<forall>k v. m k = Some v \<longrightarrow> m v = None"
proof -
  let ?A = "directAliases (nsDef_Relation typeSystem)"
  have "firstInv ?A (fold (classify (IsPermission typeSystem)) (nsDef_Relation typeSystem) initial_state)"
  proof (rule fold_classify_firstInv)
    show "firstInv ?A initial_state" by (rule firstInv_initial)
    show "distinct (map Name (nsDef_Relation typeSystem))" by (rule assms(1))
    show "\<forall>r \<in> set (nsDef_Relation typeSystem). Name r \<notin> doneSet initial_state \<union> keysOf initial_state"
      by (simp add: initial_state_def keysOf_def)
    show "\<forall>r \<in> set (nsDef_Relation typeSystem). \<forall>t. aliasTarget r = Some t \<longrightarrow>
            Name r \<in> ?A \<and> (\<not> IsPermission typeSystem t \<longrightarrow> t \<notin> ?A)"
      using assms(2) aliasTarget_direct by blast
  qed
  then have inv: "secondInv (classifyAll typeSystem)"
    unfolding classifyAll_def by (rule firstInv_secondInv)
  have run: "resolveLoop order 0 (classifyAll typeSystem) = Inr m"
    using assms(3) by (simp add: computePermissionAliases_def)
  show ?thesis
  proof (intro allI impI)
    fix k v assume "m k = Some v"
    with inv run show "m v = None" by (rule resolveLoop_secondInv)
  qed
qed

theorem aliases_terminal_witness:
  "distinct (map Name (nsDef_Relation basic_ns))
   \<and> (\<exists>m. computePermissionAliases storedOrder basic_ns = Inr m
          \<and> m ''view'' = Some ''owner'' \<and> m ''owner'' = None)"
proof -
  have d: "distinct (map Name (nsDef_Relation basic_ns))"
    by (simp add: basic_ns_def plain_def aliasTo_def)
  have h: "\<forall>r \<in> set (nsDef_Relation basic_ns). \<forall>t.
           aliasTarget r = Some t \<and> \<not> IsPermission basic_ns t
             \<longrightarrow> t \<notin> directAliases (nsDef_Relation basic_ns)"
    by (simp add: basic_ns_def plain_def aliasTo_def aliasTarget_def directAliases_def)
  obtain m where m: "computePermissionAliases storedOrder basic_ns = Inr m"
    and v: "m ''view'' = Some ''owner''"
    by (simp add: run_defs basic_ns_def)
  from aliases_terminal [OF d h m] v have "m ''owner'' = None" by blast
  with d m v show ?thesis by blast
qed


subsection \<open>The cycle error\<close>

text \<open>
  Claim C10. \<open>computePermissionAliases\<close> returns an error exactly when some executed
  pass leaves the working set as it found it, and the message of the error is then the
  text \<open>there exists a cycle in permissions: \<close> followed, in brackets and
  separated by blanks, by a list of names that is sorted, without repetition, and
  holds exactly the keys left in the working set. Those keys are the unresolved
  permissions of the namespace, a set that does not depend on any iteration order, and
  the same error is returned under every iteration order of the passes. When
  \<open>IsPermission\<close> only accepts names declared in the namespace, every listed
  permission directly aliases a listed permission, so the names lie on or lead into a
  cycle of direct aliases.
\<close>

theorem cycle_error_exact:
  "let tr = loopTrace order 0 (classifyAll typeSystem);
       stuck = workingSet (last tr)
   in ((computePermissionAliases order typeSystem = Inl e) =
         ((\<exists>i<length tr. workingSet (pass (order i) (tr ! i)) = workingSet (tr ! i))
          \<and> (\<exists>names. names \<noteq> [] \<and> sorted names \<and> distinct names
                \<and> set names = fst ` set stuck
                \<and> e = ''there exists a cycle in permissions: [''
                        @ concat (map (\<lambda>k. k @ '' '') (butlast names)) @ last names @ '']'')))
      \<and> (computePermissionAliases order typeSystem = Inl e \<longrightarrow>
            fst ` set stuck = unresolved (classifyAll typeSystem)
          \<and> (\<forall>order'. computePermissionAliases order' typeSystem = Inl e)
          \<and> ((\<forall>t. IsPermission typeSystem t \<longrightarrow> t \<in> set (map Name (nsDef_Relation typeSystem)))
                \<longrightarrow> (\<forall>k \<in> fst ` set stuck. \<exists>t \<in> fst ` set stuck. (k, t) \<in> set stuck)))"
proof -
  let ?s0 = "classifyAll typeSystem"
  let ?tr = "loopTrace order 0 ?s0"
  let ?stuck = "workingSet (last ?tr)"
  let ?names = "sort (map fst ?stuck)"
  let ?stalled = "\<exists>i<length ?tr. workingSet (pass (order i) (?tr ! i)) = workingSet (?tr ! i)"
  let ?msg = "\<lambda>names. ''there exists a cycle in permissions: [''
                        @ concat (map (\<lambda>k. k @ '' '') (butlast names)) @ last names @ '']''"
  let ?listed = "\<lambda>e names. names \<noteq> [] \<and> sorted names \<and> distinct names
                \<and> set names = fst ` set ?stuck \<and> e = ?msg names"
  have d0: "wsDistinct ?s0" by (rule wsDistinct_classifyAll)
  have trace: "(computePermissionAliases order typeSystem = Inl x) = (?stalled \<and> x = cycleError ?stuck)"
    for x
    using resolveLoop_trace [of order 0 ?s0 x] by (simp add: computePermissionAliases_def)
  have names: "(\<exists>names. ?listed e names) = (e = cycleError ?stuck)" if st: ?stalled
  proof -
    from st trace [of "cycleError ?stuck"]
    have run: "resolveLoop order 0 ?s0 = Inl (cycleError ?stuck)"
      by (simp add: computePermissionAliases_def)
    from loopTrace_stuck [OF d0 run]
    have ne: "?stuck \<noteq> []" and d: "wsDistinct (last ?tr)" by simp_all
    from ne have ne': "?names \<noteq> []" by (metis length_0_conv length_map length_sort)
    from d have dist: "distinct ?names" by (simp add: wsDistinct_def)
    have msg: "cycleError ?stuck = ?msg ?names" using ne by (rule cycleError_listing)
    show ?thesis
    proof
      assume "\<exists>names. ?listed e names"
      then obtain names where n: "?listed e names" by blast
      then have "set names = set ?names" by simp
      with n dist have "names = ?names"
        by (intro sorted_distinct_set_unique) simp_all
      with n msg show "e = cycleError ?stuck" by simp
    next
      assume "e = cycleError ?stuck"
      with msg ne' dist have "?listed e ?names" by simp
      then show "\<exists>names. ?listed e names" by blast
    qed
  qed
  have iff: "(computePermissionAliases order typeSystem = Inl e)
      = (?stalled \<and> (\<exists>names. ?listed e names))"
    using trace [of e] names by blast
  have rest: "fst ` set ?stuck = unresolved ?s0
          \<and> (\<forall>order'. computePermissionAliases order' typeSystem = Inl e)
          \<and> ((\<forall>t. IsPermission typeSystem t \<longrightarrow> t \<in> set (map Name (nsDef_Relation typeSystem)))
                \<longrightarrow> (\<forall>k \<in> fst ` set ?stuck. \<exists>t \<in> fst ` set ?stuck. (k, t) \<in> set ?stuck))"
    if err: "computePermissionAliases order typeSystem = Inl e"
  proof -
    from err have run: "resolveLoop order 0 ?s0 = Inl e"
      by (simp add: computePermissionAliases_def)
    from loopTrace_last_stalled [OF run]
    have ne: "?tr \<noteq> []" and stalled: "\<forall>x \<in> set ?stuck. snd x \<notin> doneSet (last ?tr)"
      by simp_all
    from ne have mem: "last ?tr \<in> set ?tr" by (rule last_in_set)
    from loopTrace_stuck(3) [OF d0 run] have keys: "fst ` set ?stuck = unresolved ?s0"
      by (simp add: keysOf_def)
    have indep: "\<forall>order'. computePermissionAliases order' typeSystem = Inl e"
      using resolveLoop_order_independent [OF d0 run]
      by (simp add: computePermissionAliases_def)
    have cyc: "\<forall>k \<in> fst ` set ?stuck. \<exists>t \<in> fst ` set ?stuck. (k, t) \<in> set ?stuck"
      if sound: "\<forall>t. IsPermission typeSystem t \<longrightarrow> t \<in> set (map Name (nsDef_Relation typeSystem))"
    proof
      fix k assume "k \<in> fst ` set ?stuck"
      then obtain t where kt: "(k, t) \<in> set ?stuck" by auto
      have "closed (last ?tr)"
        using closed_classifyAll [OF sound] mem by (rule closed_loopTrace)
      with kt have "t \<in> doneSet (last ?tr) \<union> keysOf (last ?tr)"
        unfolding closed_def by force
      with stalled kt have "t \<in> keysOf (last ?tr)" by force
      then have "t \<in> fst ` set ?stuck" by (simp add: keysOf_def)
      with kt show "\<exists>t \<in> fst ` set ?stuck. (k, t) \<in> set ?stuck" by blast
    qed
    show ?thesis using keys indep cyc by simp
  qed
  show ?thesis unfolding Let_def using iff rest by blast
qed

theorem cycle_error_exact_witness:
  "computePermissionAliases storedOrder cyclic_ns
     = Inl ''there exists a cycle in permissions: [a y z]''
   \<and> computePermissionAliases secondFirst cyclic_ns
     = Inl ''there exists a cycle in permissions: [a y z]''
   \<and> unresolved (classifyAll cyclic_ns) = {''a'', ''y'', ''z''}
   \<and> (\<exists>i<length (loopTrace storedOrder 0 (classifyAll cyclic_ns)). 
         workingSet (pass (storedOrder i) (loopTrace storedOrder 0 (classifyAll cyclic_ns) ! i))
           = workingSet (loopTrace storedOrder 0 (classifyAll cyclic_ns) ! i))"
proof -
  have err: "computePermissionAliases storedOrder cyclic_ns
     = Inl ''there exists a cycle in permissions: [a y z]''"
    by (simp add: run_defs cyclic_ns_def)
  have stuck: "fst ` set (workingSet (last (loopTrace storedOrder 0 (classifyAll cyclic_ns))))
     = {''a'', ''y'', ''z''}"
    by (simp add: run_defs cyclic_ns_def) blast
  have sound: "\<forall>t. IsPermission cyclic_ns t \<longrightarrow> t \<in> set (map Name (nsDef_Relation cyclic_ns))"
    by (simp add: cyclic_ns_def aliasTo_def)
  from cycle_error_exact [of storedOrder cyclic_ns "''there exists a cycle in permissions: [a y z]''"]
    err sound stuck
  show ?thesis unfolding Let_def by metis
qed

section \<open>Properties of the garbage collector\<close>

subsection \<open>The context and the wait\<close>

lemma ctxErr_values: "ctxErr c t = Some e \<Longrightarrow> e = Cancelled \<or> e = DeadlineExceeded"
  by (auto simp: ctxErr_def split: if_splits)

lemma ctxErr_no_deadline:
  "ctxErr \<lparr>cancelAt = a, deadline = None\<rparr> t = Some e \<Longrightarrow> e = Cancelled \<and> (\<exists>x. a = Some x \<and> x \<le> t)"
  by (auto simp: ctxErr_def split: if_splits option.splits)


lemma ctxErr_live: "ctxErr c t = None \<Longrightarrow> deadline c = Some dl \<Longrightarrow> t < dl"
  by (auto simp: ctxErr_def split: if_splits option.splits)

lemma callError_values: "callError k = Some e \<Longrightarrow> e \<noteq> Cancelled \<and> e \<noteq> DeadlineExceeded"
  by (cases k) (auto split: if_splits sum.splits)

lemma ctxErr_firesAt:
  "(ctxErr c t = None) = (case firesAt c of None \<Rightarrow> True | Some x \<Rightarrow> t < x)"
  by (cases "cancelAt c"; cases "deadline c") (auto simp: ctxErr_def firesAt_def)

lemma wait_cases:
  obtains (interrupted) e t where "clock s \<le> t" and "ctxErr c t = Some e"
      and "wait c d s = (Some e, s\<lparr>clock := t\<rparr>)"
  | (elapsed) "ctxErr c (clock s + d) = None" and "wait c d s = (None, s\<lparr>clock := clock s + d\<rparr>)"
proof (cases "firesAt c")
  case None
  then have "ctxErr c (clock s + d) = None" by (simp add: ctxErr_firesAt)
  moreover from None have "wait c d s = (None, s\<lparr>clock := clock s + d\<rparr>)"
    by (simp add: wait_def)
  ultimately show ?thesis by (rule elapsed)
next
  case (Some x)
  show ?thesis
  proof (cases "clock s + d < x")
    case True
    with Some have "ctxErr c (clock s + d) = None" by (simp add: ctxErr_firesAt)
    moreover from Some True have "wait c d s = (None, s\<lparr>clock := clock s + d\<rparr>)"
      by (simp add: wait_def)
    ultimately show ?thesis by (rule elapsed)
  next
    case False
    let ?t = "max (clock s) x"
    from Some have "ctxErr c ?t \<noteq> None" by (simp add: ctxErr_firesAt)
    then obtain e where e: "ctxErr c ?t = Some e" by blast
    have "clock s \<le> ?t" by simp
    moreover note e
    moreover from Some False e have "wait c d s = (Some e, s\<lparr>clock := ?t\<rparr>)"
      by (simp add: wait_def)
    ultimately show ?thesis by (rule interrupted)
  qed
qed

lemma wait_decision:
  assumes "wait c d s3 = (x, s4)"
  shows "case x of Some ce \<Rightarrow> ctxErr c (clock s4) = Some ce | None \<Rightarrow> ctxErr c (clock s4) = None"
proof (cases rule: wait_cases [where c = c and s = s3 and d = d])
  case (interrupted e t)
  with assms have "x = Some e" "s4 = s3\<lparr>clock := t\<rparr>" by simp_all
  with interrupted(2) show ?thesis by simp
next
  case elapsed
  with assms have "x = None" "s4 = s3\<lparr>clock := clock s3 + d\<rparr>" by simp_all
  with elapsed(1) show ?thesis by simp
qed

lemma wait_elapsed:
  assumes "wait c d s = (None, s1)"
  shows "s1 = s\<lparr>clock := clock s + d\<rparr>" and "ctxErr c (clock s + d) = None"
  using assms by (cases rule: wait_cases [where c = c and s = s and d = d]; simp)+

lemma wait_frame:
  assumes "wait c d s = (x, s1)"
  shows "backend s1 = backend s \<and> logged s1 = logged s \<and> clock s \<le> clock s1
     \<and> successCounter s1 = successCounter s \<and> failureCounter s1 = failureCounter s"
  using assms by (cases rule: wait_cases [where c = c and s = s and d = d]) auto

subsection \<open>The recording backend is transparent\<close>

lemma forget_watch: "forget (watch s) = s"
  by (simp add: forget_def watch_def)

lemma watch_simps:
  "received (watch s) = []" "clock (watch s) = clock s" "failureCounter (watch s) = failureCounter s"
  "logged (watch s) = logged s" "successCounter (watch s) = successCounter s"
  by (simp_all add: watch_def received_def)

lemma forget_simps:
  "clock (forget s) = clock s" "failureCounter (forget s) = failureCounter s"
  "successCounter (forget s) = successCounter s" "logged (forget s) = logged s"
  "backend (forget s) = fst (backend s)"
  by (simp_all add: forget_def)

lemma forget_updates:
  "forget (s\<lparr>clock := t\<rparr>) = (forget s)\<lparr>clock := t\<rparr>"
  "forget (s\<lparr>failureCounter := n\<rparr>) = (forget s)\<lparr>failureCounter := n\<rparr>"
  "forget (s\<lparr>successCounter := n\<rparr>) = (forget s)\<lparr>successCounter := n\<rparr>"
  "forget (s\<lparr>logged := es\<rparr>) = (forget s)\<lparr>logged := es\<rparr>"
  "forget (s\<lparr>backend := bl\<rparr>) = (forget s)\<lparr>backend := fst bl\<rparr>"
  by (simp_all add: forget_def)

lemma wait_forget: "wait c d (forget s) = apsnd forget (wait c d s)"
  by (simp add: wait_def forget_simps forget_updates split: option.splits)

lemma recording_projects:
  "ReadyState gc (fst bl) = (case ReadyState (recording gc) bl of (r, bl') \<Rightarrow> (r, fst bl'))"
  "Now gc (fst bl) = (case Now (recording gc) bl of (r, bl') \<Rightarrow> (r, fst bl'))"
  "TxIDBefore gc th (fst bl) = (case TxIDBefore (recording gc) th bl of (r, bl') \<Rightarrow> (r, fst bl'))"
  "DeleteBeforeTx gc wm (fst bl)
     = (case DeleteBeforeTx (recording gc) wm bl of (r, bl') \<Rightarrow> (r, fst bl'))"
  "MarkGCCompleted gc (fst bl) = fst (MarkGCCompleted (recording gc) bl)"
  by (cases bl; simp add: recording_def split: prod.splits)+

lemma backendCall_forget:
  assumes "\<And>bl. f (fst bl) = (case f' bl of (r, bl') \<Rightarrow> (r, fst bl'))"
  shows "backendCall latency c f (forget s) = apsnd forget (backendCall latency c f' s)"
  by (simp add: backendCall_def forget_simps forget_updates assms split: option.splits prod.splits)

lemma deleteStep_forget:
  "deleteStep gc latency c wm (forget s) = apsnd forget (deleteStep (recording gc) latency c wm s)"
proof -
  obtain r s4 where run: "backendCall latency c (DeleteBeforeTx (recording gc) wm) s = (r, s4)"
    by (cases "backendCall latency c (DeleteBeforeTx (recording gc) wm) s")
  have "backendCall latency c (DeleteBeforeTx gc wm) (forget s) = (r, forget s4)"
    using backendCall_forget [of "DeleteBeforeTx gc wm" "DeleteBeforeTx (recording gc) wm" latency c s]
      run by (simp add: recording_projects(4))
  with run show ?thesis
    by (simp add: deleteStep_def forget_simps forget_updates recording_projects(5)
          split: sum.splits)
qed

lemma watermarkStep_forget:
  "watermarkStep gc cfg latency c now (forget s)
     = apsnd forget (watermarkStep (recording gc) cfg latency c now s)"
proof -
  let ?th = "now - window cfg"
  obtain r s3 where run: "backendCall latency c (TxIDBefore (recording gc) ?th) s = (r, s3)"
    by (cases "backendCall latency c (TxIDBefore (recording gc) ?th) s")
  have "backendCall latency c (TxIDBefore gc ?th) (forget s) = (r, forget s3)"
    using backendCall_forget [of "TxIDBefore gc ?th" "TxIDBefore (recording gc) ?th" latency c s]
      run by (simp add: recording_projects(3))
  with run show ?thesis
    by (simp add: watermarkStep_def deleteStep_forget split: sum.splits)
qed

lemma nowStep_forget:
  "nowStep gc cfg latency c (forget s) = apsnd forget (nowStep (recording gc) cfg latency c s)"
proof -
  obtain r s2 where run: "backendCall latency c (Now (recording gc)) s = (r, s2)"
    by (cases "backendCall latency c (Now (recording gc)) s")
  have "backendCall latency c (Now gc) (forget s) = (r, forget s2)"
    using backendCall_forget [of "Now gc" "Now (recording gc)" latency c s]
      run by (simp add: recording_projects(2))
  with run show ?thesis
    by (simp add: nowStep_def watermarkStep_forget split: sum.splits)
qed

lemma collect_forget:
  "collect gc cfg latency c (forget s) = apsnd forget (collect (recording gc) cfg latency c s)"
proof -
  obtain r s1 where run: "backendCall latency c (ReadyState (recording gc)) s = (r, s1)"
    by (cases "backendCall latency c (ReadyState (recording gc)) s")
  have "backendCall latency c (ReadyState gc) (forget s) = (r, forget s1)"
    using backendCall_forget [of "ReadyState gc" "ReadyState (recording gc)" latency c s]
      run by (simp add: recording_projects(1))
  with run show ?thesis
    by (simp add: collect_def nowStep_forget split: sum.splits)
qed

lemma retryAfter_forget: "retryAfter c d bo (forget s) = apsnd forget (retryAfter c d bo s)"
  by (simp add: retryAfter_def wait_forget split: prod.splits option.splits)

lemma onFailure_forget:
  "onFailure cfg c bo e (forget s) = apsnd forget (onFailure cfg c bo e s)"
  by (simp add: onFailure_def Let_def retryAfter_forget forget_simps
        flip: forget_updates split: option.splits)

lemma RunOnce_forget:
  "RunOnce fuel gc cfg latency c bo (forget s)
     = apsnd forget (RunOnce fuel (recording gc) cfg latency c bo s)"
proof (induction fuel arbitrary: bo s)
  case 0
  show ?case by simp
next
  case (Suc fuel)
  obtain r s1 where col: "collect (recording gc) cfg latency c s = (r, s1)"
    by (cases "collect (recording gc) cfg latency c s")
  then have col': "collect gc cfg latency c (forget s) = (r, forget s1)"
    by (simp add: collect_forget)
  show ?case
  proof (cases r)
    case (Inr counts)
    with col col' show ?thesis by (simp add: forget_simps forget_updates)
  next
    case (Inl e)
    obtain x s4 where f: "onFailure cfg c bo e s1 = (x, s4)"
      by (cases "onFailure cfg c bo e s1")
    then have f': "onFailure cfg c bo e (forget s1) = (x, forget s4)"
      by (simp add: onFailure_forget)
    show ?thesis
    proof (cases x)
      case (Inl err)
      with col col' f f' \<open>r = Inl e\<close> show ?thesis by simp
    next
      case (Inr bo')
      with col col' f f' \<open>r = Inl e\<close> Suc.IH [of bo' s4] show ?thesis by simp
    qed
  qed
qed

lemma RunGarbageCollection_forget:
  "RunGarbageCollection fuel gc cfg latency (forget s)
     = apsnd forget (RunGarbageCollection fuel (recording gc) cfg latency s)"
  by (simp add: RunGarbageCollection_def RunOnce_forget forget_simps)

lemma swallow_forget: "swallow r (forget s) = forget (swallow r s)"
  by (cases r) (simp_all add: forget_simps forget_updates)

lemma start_forget:
  "startGarbageCollectorWithMaxElapsedTime fuel cancel gc cfg latency (forget s)
     = apsnd forget (startGarbageCollectorWithMaxElapsedTime fuel cancel (recording gc) cfg latency s)"
proof (induction fuel arbitrary: s)
  case 0
  show ?case by simp
next
  case (Suc fuel)
  let ?c = "\<lparr>cancelAt = cancel, deadline = None\<rparr>"
  obtain x s1 where w: "wait ?c (interval cfg) s = (x, s1)"
    by (cases "wait ?c (interval cfg) s")
  then have w': "wait ?c (interval cfg) (forget s) = (x, forget s1)"
    by (simp add: wait_forget)
  show ?case
  proof (cases x)
    case (Some e)
    with w w' show ?thesis by simp
  next
    case None
    let ?c1 = "\<lparr>cancelAt = cancel, deadline = Some (clock s1 + timeout cfg)\<rparr>"
    obtain y s2 where run: "RunOnce fuel (recording gc) cfg latency ?c1 (newBackoff cfg (clock s1)) s1
        = (y, s2)"
      by (cases "RunOnce fuel (recording gc) cfg latency ?c1 (newBackoff cfg (clock s1)) s1")
    then have run': "RunOnce fuel gc cfg latency ?c1 (newBackoff cfg (clock s1)) (forget s1)
        = (y, forget s2)"
      by (simp add: RunOnce_forget)
    show ?thesis
    proof (cases y)
      case None
      with w w' \<open>x = None\<close> run run' show ?thesis by (simp add: forget_simps)
    next
      case (Some r)
      with w w' \<open>x = None\<close> run run' Suc.IH [of "swallow r s2"] show ?thesis
        by (simp add: forget_simps swallow_forget)
    qed
  qed
qed

subsection \<open>One try in front of the recording backend\<close>

lemma failing_simps:
  "failing [] = 0"
  "failing (k # cs) = (if callError k = None then 0 else 1) + failing cs"
  by (simp_all add: failing_def)

lemma marks_simps:
  "marks [] = 0"
  "marks (k # cs) = (if k = CallMarkGCCompleted then 1 else 0) + marks cs"
  by (simp_all add: marks_def)

lemma received_call: "received (s\<lparr>backend := (b, cs), clock := t\<rparr>) = cs"
  by (simp add: received_def)

lemma recording_records:
  "\<exists>r b'. ReadyState (recording gc) (b, cs) = (r, (b', CallReadyState (fst r) (snd r) # cs))"
  "\<exists>r b'. Now (recording gc) (b, cs) = (r, (b', CallNow r # cs))"
  "\<exists>r b'. TxIDBefore (recording gc) th (b, cs) = (r, (b', CallTxIDBefore th r # cs))"
  "\<exists>r b'. DeleteBeforeTx (recording gc) wm (b, cs) = (r, (b', CallDeleteBeforeTx wm r # cs))"
  by (simp_all add: recording_def split: prod.splits)

lemma recorded_call_cases:
  assumes rec: "\<And>b cs. \<exists>r b'. f (b, cs) = (r, (b', tag r # cs))"
  obtains (blocked) e where "ctxErr c (clock s) = Some e"
      and "backendCall latency c f s = (Inl e, s)"
  | (ran) x b where "ctxErr c (clock s) = None"
      and "backendCall latency c f s
             = (Inr x, s\<lparr>backend := (b, tag x # received s), clock := clock s + latency\<rparr>)"
proof (cases "ctxErr c (clock s)")
  case (Some e)
  then have "backendCall latency c f s = (Inl e, s)" by (simp add: backendCall_def)
  with Some show ?thesis by (rule blocked)
next
  case None
  obtain b0 cs where bs: "backend s = (b0, cs)" by (cases "backend s")
  from rec [of b0 cs] obtain x b where fb: "f (b0, cs) = (x, (b, tag x # cs))" by blast
  have "backendCall latency c f s
      = (Inr x, s\<lparr>backend := (b, tag x # received s), clock := clock s + latency\<rparr>)"
    using None bs fb by (simp add: backendCall_def received_def)
  with None show ?thesis by (rule ran)
qed

lemmas ready_call_cases =
  recorded_call_cases [where f = "ReadyState (recording gc)"
    and tag = "\<lambda>r. CallReadyState (fst r) (snd r)", OF recording_records(1),
    case_names blocked ran] for gc

lemmas now_call_cases =
  recorded_call_cases [where f = "Now (recording gc)" and tag = CallNow,
    OF recording_records(2), case_names blocked ran] for gc

lemmas watermark_call_cases =
  recorded_call_cases [where f = "TxIDBefore (recording gc) th" and tag = "CallTxIDBefore th",
    OF recording_records(3), case_names blocked ran] for gc th

lemmas delete_call_cases =
  recorded_call_cases [where f = "DeleteBeforeTx (recording gc) wm"
    and tag = "CallDeleteBeforeTx wm", OF recording_records(4), case_names blocked ran] for gc wm

lemma frame_refl: "frame s s"
  by (simp add: frame_def)

lemma frame_trans: "frame s s1 \<Longrightarrow> frame s1 s' \<Longrightarrow> frame s s'"
  by (simp add: frame_def)

lemma frame_call: "frame s (s\<lparr>backend := bl, clock := clock s + latency\<rparr>)"
  by (simp add: frame_def)

lemma outcome_blocked: "ctxErr c (clock s) = Some e \<Longrightarrow> outcome c latency s (Inl e) s"
  by (simp add: outcome_def)

lemma outcome_failed:
  "callError k = Some e \<Longrightarrow> ctxErr c (clock s) = None \<Longrightarrow>
     outcome c latency s (Inl e)
       (s\<lparr>backend := (b, k # received s), clock := clock s + latency\<rparr>)"
  by (auto simp: outcome_def received_call failing_simps marks_simps)

lemma outcome_later:
  assumes "outcome c latency s1 r s'"
    and "s1 = s\<lparr>backend := (b, k # received s), clock := clock s + latency\<rparr>"
    and "callError k = None" and "k \<noteq> CallMarkGCCompleted" and "ctxErr c (clock s) = None"
  shows "outcome c latency s r s'"
proof -
  have r1: "received s1 = k # received s" and c1: "clock s \<le> clock s1"
    using assms(2) by (simp_all add: received_call)
  have f1: "failing (received s1) = failing (received s)"
    and m1: "marks (received s1) = marks (received s)"
    using r1 assms(3,4) by (simp_all add: failing_simps marks_simps)
  show ?thesis
  proof (cases r)
    case (Inl e)
    with assms(1,5) f1 m1 c1 show ?thesis by (auto simp: outcome_def)
  next
    case (Inr counts)
    with assms(1,5) f1 m1 c1 show ?thesis by (auto simp: outcome_def)
  qed
qed

lemma deleteStep_shape:
  assumes "deleteStep (recording gc) latency c wm s = (r, s')"
  shows "(\<exists>e. ctxErr c (clock s) = Some e \<and> r = Inl e \<and> s' = s)
   \<or> (\<exists>err b. ctxErr c (clock s) = None \<and> r = Inl (BackendTransient err)
          \<and> s' = s\<lparr>backend := (b, CallDeleteBeforeTx wm (Inl err) # received s),
                    clock := clock s + latency\<rparr>)
   \<or> (\<exists>counts b. ctxErr c (clock s) = None \<and> r = Inr counts
          \<and> s' = s\<lparr>backend := (b, CallMarkGCCompleted # CallDeleteBeforeTx wm (Inr counts) # received s),
                    clock := clock s + latency\<rparr>)"
proof (cases rule: delete_call_cases [where gc = gc and wm = wm and c = c and s = s
      and latency = latency])
  case (blocked e)
  with assms show ?thesis by (simp add: deleteStep_def)
next
  case (ran x b)
  show ?thesis
  proof (cases x)
    case (Inl err)
    with ran assms have "r = Inl (BackendTransient err)" and
      "s' = s\<lparr>backend := (b, CallDeleteBeforeTx wm (Inl err) # received s),
               clock := clock s + latency\<rparr>"
      by (auto simp: deleteStep_def)
    with ran(1) show ?thesis by blast
  next
    case (Inr counts)
    with ran assms have "r = Inr counts" and
      "s' = s\<lparr>backend := (MarkGCCompleted gc b,
                   CallMarkGCCompleted # CallDeleteBeforeTx wm (Inr counts) # received s),
               clock := clock s + latency\<rparr>"
      by (auto simp: deleteStep_def recording_def)
    with ran(1) show ?thesis by blast
  qed
qed

lemma deleteStep_frame: "deleteStep (recording gc) latency c wm s = (r, s') \<Longrightarrow> frame s s'"
  by (drule deleteStep_shape) (auto simp: frame_def)

lemma deleteStep_outcome:
  "deleteStep (recording gc) latency c wm s = (r, s') \<Longrightarrow> outcome c latency s r s'"
  by (drule deleteStep_shape)
    (auto simp: outcome_def received_call failing_simps marks_simps)

lemma deleteStep_justified:
  assumes "deleteStep (recording gc) latency c wm s = (r, s')"
    and "received s = CallTxIDBefore (t - w) (Inr wm) # CallNow (Inr t) # older"
    and "justified w (received s)"
  shows "justified w (received s')"
  using deleteStep_shape [OF assms(1)] assms(2,3) by (auto simp: received_call)

lemma watermarkStep_props:
  assumes run: "watermarkStep (recording gc) cfg latency c now s = (r, s')"
  shows "frame s s'" and "outcome c latency s r s'"
    and "received s = CallNow (Inr now) # older \<Longrightarrow> justified (window cfg) (received s)
           \<Longrightarrow> justified (window cfg) (received s')"
proof -
  let ?th = "now - window cfg"
  have "frame s s' \<and> outcome c latency s r s'
      \<and> (received s = CallNow (Inr now) # older \<longrightarrow> justified (window cfg) (received s)
           \<longrightarrow> justified (window cfg) (received s'))"
  proof (cases rule: watermark_call_cases [where gc = gc and th = ?th and c = c and s = s
      and latency = latency])
    case (blocked e)
    with run have "r = Inl e" "s' = s" by (simp_all add: watermarkStep_def)
    with blocked(1) show ?thesis by (simp add: frame_refl outcome_blocked)
  next
    case (ran x b)
    let ?s3 = "s\<lparr>backend := (b, CallTxIDBefore ?th x # received s), clock := clock s + latency\<rparr>"
    show ?thesis
    proof (cases x)
      case (Inl err)
      with ran run have "r = Inl (BackendTransient err)" "s' = ?s3"
        by (simp_all add: watermarkStep_def)
      with Inl ran(1) show ?thesis by (simp add: frame_call outcome_failed received_call)
    next
      case (Inr wm)
      with ran run have del: "deleteStep (recording gc) latency c wm ?s3 = (r, s')"
        by (simp add: watermarkStep_def)
      have f: "frame s s'"
        by (rule frame_trans [OF frame_call deleteStep_frame [OF del]])
      have o: "outcome c latency s r s'"
        by (rule outcome_later [OF deleteStep_outcome [OF del] refl]) (simp_all add: Inr ran(1))
      have j: "justified (window cfg) (received s')"
        if "received s = CallNow (Inr now) # older" and "justified (window cfg) (received s)"
        using del
      proof (rule deleteStep_justified)
        show "received ?s3 = CallTxIDBefore (now - window cfg) (Inr wm) # CallNow (Inr now) # older"
          using that(1) Inr by (simp add: received_call)
        show "justified (window cfg) (received ?s3)" using that by (simp add: received_call)
      qed
      from f o j show ?thesis by blast
    qed
  qed
  then show "frame s s'" and "outcome c latency s r s'"
    and "received s = CallNow (Inr now) # older \<Longrightarrow> justified (window cfg) (received s)
           \<Longrightarrow> justified (window cfg) (received s')"
    by blast+
qed

lemma nowStep_props:
  assumes run: "nowStep (recording gc) cfg latency c s = (r, s')"
  shows "frame s s'" and "outcome c latency s r s'"
    and "justified (window cfg) (received s) \<Longrightarrow> justified (window cfg) (received s')"
proof -
  have "frame s s' \<and> outcome c latency s r s'
      \<and> (justified (window cfg) (received s) \<longrightarrow> justified (window cfg) (received s'))"
  proof (cases rule: now_call_cases [where gc = gc and c = c and s = s and latency = latency])
    case (blocked e)
    with run have "r = Inl e" "s' = s" by (simp_all add: nowStep_def)
    with blocked(1) show ?thesis by (simp add: frame_refl outcome_blocked)
  next
    case (ran x b)
    let ?s2 = "s\<lparr>backend := (b, CallNow x # received s), clock := clock s + latency\<rparr>"
    show ?thesis
    proof (cases x)
      case (Inl err)
      with ran run have "r = Inl (BackendTransient err)" "s' = ?s2"
        by (simp_all add: nowStep_def)
      with Inl ran(1) show ?thesis by (simp add: frame_call outcome_failed received_call)
    next
      case (Inr now)
      with ran run have nxt: "watermarkStep (recording gc) cfg latency c now ?s2 = (r, s')"
        by (simp add: nowStep_def)
      have f: "frame s s'"
        by (rule frame_trans [OF frame_call watermarkStep_props(1) [OF nxt]])
      have o: "outcome c latency s r s'"
        by (rule outcome_later [OF watermarkStep_props(2) [OF nxt] refl]) (simp_all add: Inr ran(1))
      have j: "justified (window cfg) (received s')" if "justified (window cfg) (received s)"
        using nxt
      proof (rule watermarkStep_props(3))
        show "received ?s2 = CallNow (Inr now) # received s" using Inr by (simp add: received_call)
        show "justified (window cfg) (received ?s2)" using that by (simp add: received_call)
      qed
      from f o j show ?thesis by blast
    qed
  qed
  then show "frame s s'" and "outcome c latency s r s'"
    and "justified (window cfg) (received s) \<Longrightarrow> justified (window cfg) (received s')"
    by blast+
qed

lemma collect_props:
  assumes run: "collect (recording gc) cfg latency c s = (r, s')"
  shows "frame s s'" and "outcome c latency s r s'"
    and "justified (window cfg) (received s) \<Longrightarrow> justified (window cfg) (received s')"
proof -
  let ?tag = "\<lambda>r. CallReadyState (fst r) (snd r)"
  have "frame s s' \<and> outcome c latency s r s'
      \<and> (justified (window cfg) (received s) \<longrightarrow> justified (window cfg) (received s'))"
  proof (cases rule: ready_call_cases [where gc = gc and c = c and s = s and latency = latency])
    case (blocked e)
    with run have "r = Inl e" "s' = s" by (simp_all add: collect_def)
    with blocked(1) show ?thesis by (simp add: frame_refl outcome_blocked)
  next
    case (ran x b)
    let ?s1 = "s\<lparr>backend := (b, ?tag x # received s), clock := clock s + latency\<rparr>"
    show ?thesis
    proof (cases "fst x")
      case False
      with ran run have "r = Inl (NotReady (snd x))" "s' = ?s1" by (simp_all add: collect_def)
      with False ran(1) show ?thesis by (simp add: frame_call outcome_failed received_call)
    next
      case True
      with ran run have nxt: "nowStep (recording gc) cfg latency c ?s1 = (r, s')"
        by (simp add: collect_def)
      have f: "frame s s'"
        by (rule frame_trans [OF frame_call nowStep_props(1) [OF nxt]])
      have o: "outcome c latency s r s'"
        by (rule outcome_later [OF nowStep_props(2) [OF nxt] refl]) (simp_all add: True ran(1))
      have j: "justified (window cfg) (received s')" if "justified (window cfg) (received s)"
        using nxt by (rule nowStep_props(3)) (use that in \<open>simp add: received_call\<close>)
      from f o j show ?thesis by blast
    qed
  qed
  then show "frame s s'" and "outcome c latency s r s'"
    and "justified (window cfg) (received s) \<Longrightarrow> justified (window cfg) (received s')"
    by blast+
qed

text \<open>
  The error of a try is the context's exactly when it is \<open>Cancelled\<close> or
  \<open>DeadlineExceeded\<close>; any other error comes with exactly one failed call.
\<close>

lemma collect_failing:
  assumes "collect (recording gc) cfg latency c s = (r, s')"
  shows "failing (received s') = failing (received s)
           + (case r of
                Inl (NotReady msg) \<Rightarrow> 1
              | Inl (BackendTransient err) \<Rightarrow> 1
              | Inl Cancelled \<Rightarrow> 0
              | Inl DeadlineExceeded \<Rightarrow> 0
              | Inr counts \<Rightarrow> 0)"
proof (cases r)
  case (Inr counts)
  with collect_props(2) [OF assms] show ?thesis by (simp add: outcome_def)
next
  case (Inl e)
  with collect_props(2) [OF assms]
  have "ctxErr c (clock s') = Some e \<and> failing (received s') = failing (received s)
      \<or> (\<exists>k. callError k = Some e) \<and> failing (received s') = Suc (failing (received s))"
    by (auto simp: outcome_def)
  then show ?thesis
  proof
    assume a: "ctxErr c (clock s') = Some e \<and> failing (received s') = failing (received s)"
    then have "e = Cancelled \<or> e = DeadlineExceeded" using ctxErr_values by blast
    with a Inl show ?thesis by auto
  next
    assume a: "(\<exists>k. callError k = Some e) \<and> failing (received s') = Suc (failing (received s))"
    then have "e \<noteq> Cancelled \<and> e \<noteq> DeadlineExceeded" using callError_values by blast
    with a Inl show ?thesis by (cases e) auto
  qed
qed

subsection \<open>Step 6 and the retry loop\<close>

lemma ctxErr_cancel_only:
  "ctxErr (c\<lparr>deadline := None\<rparr>) t = Some ce \<Longrightarrow> ce = Cancelled \<and> ctxErr c t = Some Cancelled"
  by (auto simp: ctxErr_def split: if_splits option.splits)

lemma retryAfter_props:
  assumes "retryAfter c d bo s = (x, s')"
  shows "backend s' = backend s \<and> logged s' = logged s \<and> clock s \<le> clock s'
     \<and> successCounter s' = successCounter s \<and> failureCounter s' = failureCounter s
     \<and> (case x of Inl ce \<Rightarrow> ce = Cancelled \<and> ctxErr c (clock s') = Some Cancelled
                  | Inr b \<Rightarrow> True)"
proof (cases rule: wait_cases [where c = "c\<lparr>deadline := None\<rparr>" and s = s and d = d])
  case (interrupted e t)
  with assms have "x = Inl e" "s' = s\<lparr>clock := t\<rparr>"
    by (simp_all add: retryAfter_def)
  with interrupted(1) ctxErr_cancel_only [OF interrupted(2)] show ?thesis by simp
next
  case elapsed
  with assms have "x = Inr bo" "s' = s\<lparr>clock := clock s + d\<rparr>"
    by (simp_all add: retryAfter_def)
  then show ?thesis by simp
qed

lemma onFailure_props:
  assumes run: "onFailure cfg c bo e s = (x, s')"
  shows "failureStep e s s'"
    and "case x of Inl e' \<Rightarrow> (e' = DeadlineExceeded) = (e = DeadlineExceeded)
                              \<and> (e' = e \<and> clock s' = clock s \<or> ctxErr c (clock s') = Some e')
                 | Inr bo' \<Rightarrow> e \<noteq> Cancelled \<and> e \<noteq> DeadlineExceeded"
proof -
  let ?s3 = "s\<lparr>failureCounter := Suc (failureCounter s)\<rparr>"
  let ?Q = "\<lambda>x s'. failureStep e s s' \<and>
     (case x of Inl e' \<Rightarrow> (e' = DeadlineExceeded) = (e = DeadlineExceeded)
                           \<and> (e' = e \<and> clock s' = clock s \<or> ctxErr c (clock s') = Some e')
              | Inr bo' \<Rightarrow> e \<noteq> Cancelled \<and> e \<noteq> DeadlineExceeded)"
  have waited: "?Q x s'"
    if w: "retryAfter c d b ?s3 = (x, s')" and ne: "e \<noteq> Cancelled" "e \<noteq> DeadlineExceeded" for d b
  proof -
    from retryAfter_props [OF w] ne have "failureStep e s s'"
      by (simp add: failureStep_def)
    moreover from retryAfter_props [OF w] ne
    have "case x of Inl e' \<Rightarrow> (e' = DeadlineExceeded) = (e = DeadlineExceeded)
                           \<and> (e' = e \<and> clock s' = clock s \<or> ctxErr c (clock s') = Some e')
             | Inr bo' \<Rightarrow> e \<noteq> Cancelled \<and> e \<noteq> DeadlineExceeded"
      by (cases x) auto
    ultimately show ?thesis by simp
  qed
  have "?Q x s'"
  proof (cases "e = Cancelled")
    case True
    with run have "x = Inl e" "s' = s" by (simp_all add: onFailure_def)
    with True show ?thesis by (simp add: failureStep_def)
  next
    case nc: False
    show ?thesis
    proof (cases "e = DeadlineExceeded")
      case True
      with nc run have "x = Inl e" "s' = ?s3" by (simp_all add: onFailure_def Let_def)
      with nc show ?thesis by (simp add: failureStep_def)
    next
      case nd: False
      show ?thesis
      proof (cases "NextDelay cfg (clock ?s3) bo")
        case (Some p)
        obtain d bo' where p: "p = (d, bo')" by (cases p)
        have "retryAfter c d bo' ?s3 = (x, s')"
          using run nc nd Some p by (simp add: onFailure_def Let_def)
        then show ?thesis using nc nd by (rule waited)
      next
        case None
        show ?thesis
        proof (cases "maxElapsedTime cfg < interval cfg")
          case True
          have "retryAfter c 0 bo ?s3 = (x, s')"
            using run nc nd None True by (simp add: onFailure_def Let_def)
          then show ?thesis using nc nd by (rule waited)
        next
          case False
          with nc nd None run have "x = Inl e" "s' = ?s3" by (simp_all add: onFailure_def Let_def)
          with nc show ?thesis by (simp add: failureStep_def)
        qed
      qed
    qed
  qed
  then show "failureStep e s s'"
    and "case x of Inl e' \<Rightarrow> (e' = DeadlineExceeded) = (e = DeadlineExceeded)
                              \<and> (e' = e \<and> clock s' = clock s \<or> ctxErr c (clock s') = Some e')
                 | Inr bo' \<Rightarrow> e \<noteq> Cancelled \<and> e \<noteq> DeadlineExceeded"
    by blast+
qed

text \<open>
  A try ends in \<open>Cancelled\<close> or \<open>DeadlineExceeded\<close> exactly when the
  context, at the instant the try ends, says so: step 6 tells the tries that the
  context ended from those that failed on the backend by the error alone.
\<close>

lemma collect_context_error:
  assumes "collect gc cfg latency c s = (Inl e, s')"
  shows "(e = Cancelled \<or> e = DeadlineExceeded) = (ctxErr c (clock s') = Some e)"
proof -
  obtain r s1 where rec: "collect (recording gc) cfg latency c (watch s) = (r, s1)"
    by (cases "collect (recording gc) cfg latency c (watch s)")
  with collect_forget [of gc cfg latency c "watch s"] assms
  have r: "r = Inl e" and s': "s' = forget s1" by (simp_all add: forget_watch)
  from collect_props(2) [OF rec] r
  have "ctxErr c (clock s1) = Some e \<or> (\<exists>k. callError k = Some e)"
    by (auto simp: outcome_def)
  then show ?thesis
  proof
    assume "ctxErr c (clock s1) = Some e"
    with ctxErr_values [OF this] s' show ?thesis by (simp add: forget_simps)
  next
    assume "\<exists>k. callError k = Some e"
    then have ne: "e \<noteq> Cancelled \<and> e \<noteq> DeadlineExceeded" using callError_values by blast
    with ctxErr_values [of c "clock s'" e] show ?thesis by blast
  qed
qed

lemma RunOnce_cases:
  obtains (success) counts s1 where "collect gc cfg latency c s = (Inr counts, s1)"
      and "RunOnce (Suc fuel) gc cfg latency c bo s
             = (Some (Inr counts), s1\<lparr>successCounter := Suc (successCounter s1)\<rparr>)"
  | (stop) e s1 err s4 where "collect gc cfg latency c s = (Inl e, s1)"
      and "onFailure cfg c bo e s1 = (Inl err, s4)"
      and "RunOnce (Suc fuel) gc cfg latency c bo s = (Some (Inl err), s4)"
  | (retry) e s1 bo' s4 where "collect gc cfg latency c s = (Inl e, s1)"
      and "onFailure cfg c bo e s1 = (Inr bo', s4)"
      and "RunOnce (Suc fuel) gc cfg latency c bo s = RunOnce fuel gc cfg latency c bo' s4"
proof -
  obtain r s1 where col: "collect gc cfg latency c s = (r, s1)"
    by (cases "collect gc cfg latency c s")
  show ?thesis
  proof (cases r)
    case (Inr counts)
    with col show ?thesis by (intro success [of counts s1]) simp_all
  next
    case (Inl e)
    obtain x s4 where f: "onFailure cfg c bo e s1 = (x, s4)"
      by (cases "onFailure cfg c bo e s1")
    show ?thesis
    proof (cases x)
      case (Inl err)
      with col f \<open>r = Inl e\<close> show ?thesis by (intro stop [of e s1 err s4]) simp_all
    next
      case (Inr bo')
      with col f \<open>r = Inl e\<close> show ?thesis by (intro retry [of e s1 bo' s4]) simp_all
    qed
  qed
qed

lemma safe_refl: "safe w s s"
  by (simp add: safe_def)

lemma safe_trans: "safe w s s1 \<Longrightarrow> safe w s1 s' \<Longrightarrow> safe w s s'"
  by (auto simp: safe_def)

lemma collect_safe:
  "collect (recording gc) cfg latency c s = (r, s1) \<Longrightarrow> safe (window cfg) s s1"
  using collect_props(1,3) [of gc cfg latency c s r s1]
  by (simp add: safe_def frame_def)

lemma failureStep_safe: "failureStep e s1 s4 \<Longrightarrow> safe w s1 s4"
  by (simp add: safe_def failureStep_def received_def)

lemma success_safe: "safe w s1 (s1\<lparr>successCounter := n\<rparr>)"
  by (simp add: safe_def received_def)

lemma wait_safe: "wait c d s = (x, s1) \<Longrightarrow> safe w s s1"
  using wait_frame [of c d s x s1] by (simp add: safe_def received_def)

lemma swallow_safe: "safe w s (swallow r s)"
  by (cases r) (simp_all add: safe_def received_def)

lemma RunOnce_safe:
  "RunOnce fuel (recording gc) cfg latency c bo s = (res, s') \<Longrightarrow> safe (window cfg) s s'"
proof (induction fuel arbitrary: bo s)
  case 0
  then show ?case by (simp add: safe_refl)
next
  case (Suc fuel)
  show ?case
  proof (cases rule: RunOnce_cases [of "recording gc" cfg latency c s fuel bo])
    case (success counts s1)
    from Suc.prems [unfolded success(2)]
    have "s' = s1\<lparr>successCounter := Suc (successCounter s1)\<rparr>" by simp
    with collect_safe [OF success(1)] success_safe [of "window cfg" s1 "Suc (successCounter s1)"]
    show ?thesis by (auto intro: safe_trans)
  next
    case (stop e s1 err s4)
    from Suc.prems [unfolded stop(3)] have "s' = s4" by simp
    with collect_safe [OF stop(1)] failureStep_safe [OF onFailure_props(1) [OF stop(2)]]
    show ?thesis by (auto intro: safe_trans)
  next
    case (retry e s1 bo' s4)
    from Suc.prems [unfolded retry(3)]
    have "RunOnce fuel (recording gc) cfg latency c bo' s4 = (res, s')" .
    then have "safe (window cfg) s4 s'" by (rule Suc.IH)
    with collect_safe [OF retry(1)] failureStep_safe [OF onFailure_props(1) [OF retry(2)]]
    show ?thesis by (blast intro: safe_trans)
  qed
qed

lemma try_count:
  assumes col: "collect (recording gc) cfg latency c s = (Inl e, s1)"
    and f: "onFailure cfg c bo e s1 = (x, s4)"
  shows "failureCounter s4 + failing (received s)
           = failureCounter s + failing (received s4) + (if x = Inl DeadlineExceeded then 1 else 0)"
    and "logged s4 = logged s"
proof -
  from collect_props(1) [OF col] have fr: "failureCounter s1 = failureCounter s"
    "logged s1 = logged s" by (simp_all add: frame_def)
  from onFailure_props(1) [OF f]
  have st: "failureCounter s4 = failureCounter s1 + (if e = Cancelled then 0 else 1)"
    and r4: "received s4 = received s1" and l4: "logged s4 = logged s1"
    by (simp_all add: failureStep_def received_def)
  from onFailure_props(2) [OF f]
  have x: "(x = Inl DeadlineExceeded) = (e = DeadlineExceeded)" by (cases x) auto
  from collect_failing [OF col]
  have "failing (received s1) = failing (received s)
          + (if e = Cancelled \<or> e = DeadlineExceeded then 0 else 1)"
    by (cases e) simp_all
  with fr st r4 x show "failureCounter s4 + failing (received s)
           = failureCounter s + failing (received s4) + (if x = Inl DeadlineExceeded then 1 else 0)"
    by simp
  from fr l4 show "logged s4 = logged s" by simp
qed

lemma RunOnce_count:
  "RunOnce fuel (recording gc) cfg latency c bo s = (res, s') \<Longrightarrow>
     failureCounter s' + failing (received s)
       = failureCounter s + failing (received s')
           + (if res = Some (Inl DeadlineExceeded) then 1 else 0)
     \<and> logged s' = logged s"
proof (induction fuel arbitrary: bo s)
  case 0
  then show ?case by simp
next
  case (Suc fuel)
  show ?case
  proof (cases rule: RunOnce_cases [of "recording gc" cfg latency c s fuel bo])
    case (success counts s1)
    from Suc.prems [unfolded success(2)]
    have res: "res = Some (Inr counts)"
      and s': "s' = s1\<lparr>successCounter := Suc (successCounter s1)\<rparr>" by simp_all
    from collect_props(1) [OF success(1)] have "failureCounter s1 = failureCounter s"
      "logged s1 = logged s" by (simp_all add: frame_def)
    moreover from collect_failing [OF success(1)]
    have "failing (received s1) = failing (received s)" by simp
    ultimately show ?thesis using res s' by (simp add: received_def)
  next
    case (stop e s1 err s4)
    from Suc.prems [unfolded stop(3)] have "res = Some (Inl err)" "s' = s4" by simp_all
    with try_count [OF stop(1,2)] show ?thesis by simp
  next
    case (retry e s1 bo' s4)
    from Suc.prems [unfolded retry(3)]
    have "RunOnce fuel (recording gc) cfg latency c bo' s4 = (res, s')" .
    from Suc.IH [OF this] try_count [OF retry(1,2)] show ?thesis by simp
  qed
qed


lemma RunOnce_terminates:
  assumes "1 \<le> latency" and "deadline c = Some dl"
  shows "dl - clock s < fuel
    \<Longrightarrow> \<exists>r s'. RunOnce fuel (recording gc) cfg latency c bo s = (Some r, s')"
proof (induction fuel arbitrary: bo s)
  case 0
  then show ?case by simp
next
  case (Suc fuel)
  show ?case
  proof (cases rule: RunOnce_cases [of "recording gc" cfg latency c s fuel bo])
    case (success counts s1)
    then show ?thesis by blast
  next
    case (stop e s1 err s4)
    then show ?thesis by blast
  next
    case (retry e s1 bo' s4)
    from onFailure_props [OF retry(2)]
    have ne: "e \<noteq> Cancelled" "e \<noteq> DeadlineExceeded" and mono: "clock s1 \<le> clock s4"
      by (simp_all add: failureStep_def)
    from collect_props(2) [OF retry(1)] ne ctxErr_values [of c "clock s1" e]
    have "clock s + latency \<le> clock s1" and "ctxErr c (clock s) = None"
      by (auto simp: outcome_def)
    with mono assms have "clock s < clock s4" and "clock s < dl"
      by (simp_all add: ctxErr_live)
    then have "dl - clock s4 < fuel" using Suc.prems by simp
    from Suc.IH [OF this, of bo'] show ?thesis unfolding retry(3) .
  qed
qed

subsection \<open>The Scheduler Loop\<close>

lemma start_cases:
  obtains (cancelled) e s1 where
        "wait \<lparr>cancelAt = cancel, deadline = None\<rparr> (interval cfg) s = (Some e, s1)"
      and "startGarbageCollectorWithMaxElapsedTime (Suc fuel) cancel gc cfg latency s = (Some e, s1)"
  | (running) s1 s2 where "wait \<lparr>cancelAt = cancel, deadline = None\<rparr> (interval cfg) s = (None, s1)"
      and "RunOnce fuel gc cfg latency \<lparr>cancelAt = cancel, deadline = Some (clock s1 + timeout cfg)\<rparr>
             (newBackoff cfg (clock s1)) s1 = (None, s2)"
      and "startGarbageCollectorWithMaxElapsedTime (Suc fuel) cancel gc cfg latency s = (None, s2)"
  | (ticked) s1 r s2 where "wait \<lparr>cancelAt = cancel, deadline = None\<rparr> (interval cfg) s = (None, s1)"
      and "RunOnce fuel gc cfg latency \<lparr>cancelAt = cancel, deadline = Some (clock s1 + timeout cfg)\<rparr>
             (newBackoff cfg (clock s1)) s1 = (Some r, s2)"
      and "startGarbageCollectorWithMaxElapsedTime (Suc fuel) cancel gc cfg latency s
             = startGarbageCollectorWithMaxElapsedTime fuel cancel gc cfg latency (swallow r s2)"
proof (cases rule: wait_cases [where c = "\<lparr>cancelAt = cancel, deadline = None\<rparr>" and s = s
      and d = "interval cfg"])
  case (interrupted e t)
  then show ?thesis by (intro cancelled [of e "s\<lparr>clock := t\<rparr>"]) simp_all
next
  case elapsed
  let ?s1 = "s\<lparr>clock := clock s + interval cfg\<rparr>"
  obtain x s2 where run: "RunOnce fuel gc cfg latency
      \<lparr>cancelAt = cancel, deadline = Some (clock ?s1 + timeout cfg)\<rparr>
      (newBackoff cfg (clock ?s1)) ?s1 = (x, s2)"
    by (cases "RunOnce fuel gc cfg latency
      \<lparr>cancelAt = cancel, deadline = Some (clock ?s1 + timeout cfg)\<rparr>
      (newBackoff cfg (clock ?s1)) ?s1")
  show ?thesis
  proof (cases x)
    case None
    with elapsed run show ?thesis by (intro running [of ?s1 s2]) simp_all
  next
    case (Some r)
    with elapsed run show ?thesis by (intro ticked [of ?s1 r s2]) simp_all
  qed
qed

lemma start_safe:
  "startGarbageCollectorWithMaxElapsedTime fuel cancel (recording gc) cfg latency s = (res, s')
     \<Longrightarrow> safe (window cfg) s s'"
proof (induction fuel arbitrary: s)
  case 0
  then show ?case by (simp add: safe_refl)
next
  case (Suc fuel)
  show ?case
  proof (cases rule: start_cases [of cancel cfg s fuel "recording gc" latency])
    case (cancelled e s1)
    from Suc.prems [unfolded cancelled(2)] have "s' = s1" by simp
    with wait_safe [OF cancelled(1)] show ?thesis by simp
  next
    case (running s1 s2)
    from Suc.prems [unfolded running(3)] have "s' = s2" by simp
    with wait_safe [OF running(1)] RunOnce_safe [OF running(2)] show ?thesis
      by (blast intro: safe_trans)
  next
    case (ticked s1 r s2)
    from Suc.prems [unfolded ticked(3)] have "safe (window cfg) (swallow r s2) s'" by (rule Suc.IH)
    with wait_safe [OF ticked(1)] RunOnce_safe [OF ticked(2)] swallow_safe [of "window cfg" s2 r]
    show ?thesis by (blast intro: safe_trans)
  qed
qed

lemma aborts_simps:
  "aborts [] = 0"
  "aborts (e # es) = (if e = DeadlineExceeded then 1 else 0) + aborts es"
  by (simp_all add: aborts_def)

lemma swallow_count:
  "failureCounter (swallow r s) = failureCounter s" "received (swallow r s) = received s"
  "aborts (logged (swallow r s))
     = aborts (logged s) + (if Some r = Some (Inl DeadlineExceeded) then 1 else 0)"
  by (cases r; simp add: received_def aborts_simps)+

lemma aborts_append: "aborts (xs @ ys) = aborts xs + aborts ys"
  by (simp add: aborts_def)

lemma RunOnce_logged:
  "RunOnce fuel gc cfg latency c bo s = (res, s') \<Longrightarrow> logged s' = logged s"
  using RunOnce_forget [of fuel gc cfg latency c bo "watch s"]
    RunOnce_count [of fuel gc cfg latency c bo "watch s"
      "fst (RunOnce fuel (recording gc) cfg latency c bo (watch s))"
      "snd (RunOnce fuel (recording gc) cfg latency c bo (watch s))"]
  by (cases "RunOnce fuel (recording gc) cfg latency c bo (watch s)")
    (auto simp: forget_watch forget_simps watch_simps)

lemma start_logged:
  "startGarbageCollectorWithMaxElapsedTime fuel cancel gc cfg latency s = (res, s')
     \<Longrightarrow> \<exists>ticks. logged s' = ticks @ logged s"
proof (induction fuel arbitrary: s)
  case 0
  then show ?case by simp
next
  case (Suc fuel)
  show ?case
  proof (cases rule: start_cases [of cancel cfg s fuel gc latency])
    case (cancelled e s1)
    from Suc.prems [unfolded cancelled(2)] have "s' = s1" by simp
    with wait_frame [OF cancelled(1)] show ?thesis by simp
  next
    case (running s1 s2)
    from Suc.prems [unfolded running(3)] have "s' = s2" by simp
    with wait_frame [OF running(1)] RunOnce_logged [OF running(2)] show ?thesis by simp
  next
    case (ticked s1 r s2)
    from Suc.prems [unfolded ticked(3)]
    have "\<exists>ticks. logged s' = ticks @ logged (swallow r s2)" by (rule Suc.IH)
    then obtain ticks where t: "logged s' = ticks @ logged (swallow r s2)" by blast
    from wait_frame [OF ticked(1)] RunOnce_logged [OF ticked(2)]
    have "logged s2 = logged s" by simp
    with t show ?thesis by (cases r) auto
  qed
qed

lemma start_count:
  "startGarbageCollectorWithMaxElapsedTime fuel cancel (recording gc) cfg latency s = (res, s')
     \<Longrightarrow> failureCounter s' + failing (received s) + aborts (logged s)
           = failureCounter s + failing (received s') + aborts (logged s')"
proof (induction fuel arbitrary: s)
  case 0
  then show ?case by simp
next
  case (Suc fuel)
  show ?case
  proof (cases rule: start_cases [of cancel cfg s fuel "recording gc" latency])
    case (cancelled e s1)
    from Suc.prems [unfolded cancelled(2)] have "s' = s1" by simp
    with wait_frame [OF cancelled(1)] show ?thesis by (simp add: received_def)
  next
    case (running s1 s2)
    from Suc.prems [unfolded running(3)] have "s' = s2" by simp
    with wait_frame [OF running(1)] RunOnce_count [OF running(2)] show ?thesis
      by (simp add: received_def)
  next
    case (ticked s1 r s2)
    from Suc.prems [unfolded ticked(3)]
    have "failureCounter s' + failing (received (swallow r s2)) + aborts (logged (swallow r s2))
           = failureCounter (swallow r s2) + failing (received s') + aborts (logged s')"
      by (rule Suc.IH)
    with wait_frame [OF ticked(1)] RunOnce_count [OF ticked(2)] show ?thesis
      by (simp add: received_def swallow_count [unfolded received_def])
  qed
qed

lemma start_result:
  "startGarbageCollectorWithMaxElapsedTime fuel cancel gc cfg latency s = (Some e, s')
     \<Longrightarrow> e = Cancelled \<and> (\<exists>a. cancel = Some a \<and> a \<le> clock s')"
proof (induction fuel arbitrary: s)
  case 0
  then show ?case by simp
next
  case (Suc fuel)
  show ?case
  proof (cases rule: start_cases [of cancel cfg s fuel gc latency])
    case (cancelled x s1)
    from Suc.prems [unfolded cancelled(2)] have "x = e" "s' = s1" by simp_all
    moreover from wait_decision [OF cancelled(1)]
    have "ctxErr \<lparr>cancelAt = cancel, deadline = None\<rparr> (clock s1) = Some x" by simp
    ultimately show ?thesis using ctxErr_no_deadline by blast
  next
    case (running s1 s2)
    from Suc.prems [unfolded running(3)] show ?thesis by simp
  next
    case (ticked s1 r s2)
    from Suc.prems [unfolded ticked(3)] show ?thesis by (rule Suc.IH)
  qed
qed

lemma start_terminates:
  assumes "1 \<le> latency" and "1 \<le> interval cfg"
  shows "(a - clock s) + timeout cfg + 1 < fuel \<Longrightarrow>
     \<exists>s'. startGarbageCollectorWithMaxElapsedTime fuel (Some a) (recording gc) cfg latency s
            = (Some Cancelled, s')"
proof (induction fuel arbitrary: s)
  case 0
  then show ?case by simp
next
  case (Suc fuel)
  show ?case
  proof (cases rule: start_cases [of "Some a" cfg s fuel "recording gc" latency])
    case (cancelled e s1)
    from wait_decision [OF cancelled(1)]
    have "ctxErr \<lparr>cancelAt = Some a, deadline = None\<rparr> (clock s1) = Some e" by simp
    then have "e = Cancelled" using ctxErr_no_deadline by blast
    with cancelled(2) show ?thesis by blast
  next
    case (running s1 s2)
    from wait_elapsed(1) [OF running(1)] have c1: "clock s1 = clock s + interval cfg" by simp
    have "(clock s1 + timeout cfg) - clock s1 < fuel" using Suc.prems by simp
    from RunOnce_terminates [OF assms(1) _ this,
        of "\<lparr>cancelAt = Some a, deadline = Some (clock s1 + timeout cfg)\<rparr>"
           gc cfg "newBackoff cfg (clock s1)"]
      running(2)
    show ?thesis by simp
  next
    case (ticked s1 r s2)
    from wait_elapsed [OF ticked(1)] have c1: "clock s1 = clock s + interval cfg"
      and live: "ctxErr \<lparr>cancelAt = Some a, deadline = None\<rparr> (clock s + interval cfg) = None"
      by simp_all
    from live have "clock s + interval cfg < a" by (auto simp: ctxErr_def split: if_splits)
    moreover from RunOnce_safe [OF ticked(2)] have "clock s1 \<le> clock s2" by (simp add: safe_def)
    moreover have "clock (swallow r s2) = clock s2" by (cases r) simp_all
    ultimately have "(a - clock (swallow r s2)) + timeout cfg + 1 < fuel"
      using Suc.prems c1 assms(2) by simp
    from Suc.IH [OF this] show ?thesis unfolding ticked(3) .
  qed
qed

text \<open>
  The \<open>gc\<close> command surfaces the error of the One-Shot Runner as it is, and
  returns nil exactly when the runner does.
\<close>

lemma gcRunE_surfaces_runner_error:
  assumes "newDatastore (cfg0\<lparr>GCInterval := - 3600000000000, RequestHedgingEnabled := False\<rparr>) = Inr ds"
    and "unwrapped ds = Collector gc"
  shows "fst (gcRunE newDatastore run cfg0)
           = map_option RunError (run gc (GCWindow cfg0) (GCMaxOperationTime cfg0))"
  using assms by (simp add: gcRunE_def Let_def split: option.splits)

lemma gcRunE_nil_iff:
  "fst (gcRunE newDatastore run cfg0) = None \<longleftrightarrow>
     (\<exists>ds gc. newDatastore (cfg0\<lparr>GCInterval := - 3600000000000, RequestHedgingEnabled := False\<rparr>) = Inr ds
        \<and> unwrapped ds = Collector gc
        \<and> run gc (GCWindow cfg0) (GCMaxOperationTime cfg0) = None)"
  by (auto simp: gcRunE_def Let_def split: sum.splits option.splits CoreDatastore.splits)

section \<open>Claims about the garbage collector\<close>

subsection \<open>The watermark\<close>

text \<open>
  Claim C1. Put any backend behind the recording wrapper and run the collector, for
  any length: in the record that the backend keeps of what it received, every call of
  \<open>DeleteBeforeTx\<close> received exactly (hence at most) the revision that the call
  before it, \<open>TxIDBefore\<close>, returned for the threshold \<open>t - window\<close> it
  received, where \<open>t\<close> is what the backend's own \<open>Now\<close> returned just
  before. So no argument of these calls comes from the collector's clock. This holds of
  \<open>RunOnce\<close>, the One-Shot Runner and the Scheduler Loop, whose runs in front
  of the wrapper are their runs in front of the backend itself.
\<close>

theorem delete_watermark_from_backend:
  "justified (window cfg)
     (received (snd (RunOnce fuel (recording gc) cfg latency c bo (watch s))))
   \<and> justified (window cfg)
       (received (snd (RunGarbageCollection fuel (recording gc) cfg latency (watch s))))
   \<and> justified (window cfg)
       (received (snd (startGarbageCollectorWithMaxElapsedTime fuel cancel (recording gc) cfg
                        latency (watch s))))
   \<and> RunOnce fuel gc cfg latency c bo s
       = apsnd forget (RunOnce fuel (recording gc) cfg latency c bo (watch s))
   \<and> RunGarbageCollection fuel gc cfg latency s
       = apsnd forget (RunGarbageCollection fuel (recording gc) cfg latency (watch s))
   \<and> startGarbageCollectorWithMaxElapsedTime fuel cancel gc cfg latency s
       = apsnd forget (startGarbageCollectorWithMaxElapsedTime fuel cancel (recording gc) cfg
                        latency (watch s))"
proof -
  have j0: "justified (window cfg) (received (watch s))" by (simp add: watch_simps)
  have "safe (window cfg) (watch s) (snd (RunOnce fuel (recording gc) cfg latency c bo (watch s)))"
    for c bo
    by (rule RunOnce_safe [of fuel gc cfg latency c bo "watch s"
          "fst (RunOnce fuel (recording gc) cfg latency c bo (watch s))"]) simp
  with j0 have once: "justified (window cfg)
     (received (snd (RunOnce fuel (recording gc) cfg latency c bo (watch s))))" for c bo
    by (simp add: safe_def)
  have "safe (window cfg) (watch s)
      (snd (startGarbageCollectorWithMaxElapsedTime fuel cancel (recording gc) cfg latency (watch s)))"
    by (rule start_safe [of fuel cancel gc cfg latency "watch s"
          "fst (startGarbageCollectorWithMaxElapsedTime fuel cancel (recording gc) cfg latency
                  (watch s))"]) simp
  with j0 have loop: "justified (window cfg)
       (received (snd (startGarbageCollectorWithMaxElapsedTime fuel cancel (recording gc) cfg
                        latency (watch s))))"
    by (simp add: safe_def)
  from once loop
    RunOnce_forget [of fuel gc cfg latency c bo "watch s"]
    RunGarbageCollection_forget [of fuel gc cfg latency "watch s"]
    start_forget [of fuel cancel gc cfg latency "watch s"]
  show ?thesis by (simp add: forget_watch RunGarbageCollection_def)
qed

theorem delete_watermark_from_backend_witness:
  "received (snd (RunGarbageCollection 5 (recording ledgerTarget) testConfig 1 (watch fiveCommits)))
     = [CallMarkGCCompleted,
        CallDeleteBeforeTx 3 (Inr \<lparr>Relationships = 0, Transactions = 2, Namespaces = 0\<rparr>),
        CallTxIDBefore 4000 (Inr 3), CallNow (Inr 5000), CallReadyState True ''ready'']
   \<and> justified 1000
       (received (snd (RunGarbageCollection 5 (recording ledgerTarget) testConfig 1
                        (watch fiveCommits))))
   \<and> fst (RunGarbageCollection 5 ledgerTarget testConfig 1 fiveCommits)
       = Some (Inr \<lparr>Relationships = 0, Transactions = 2, Namespaces = 0\<rparr>)"
proof -
  have calls: "received (snd (RunGarbageCollection 5 (recording ledgerTarget) testConfig 1
                                (watch fiveCommits)))
     = [CallMarkGCCompleted,
        CallDeleteBeforeTx 3 (Inr \<lparr>Relationships = 0, Transactions = 2, Namespaces = 0\<rparr>),
        CallTxIDBefore 4000 (Inr 3), CallNow (Inr 5000), CallReadyState True ''ready'']"
    by code_simp
  have res: "fst (RunGarbageCollection 5 (recording ledgerTarget) testConfig 1 (watch fiveCommits))
       = Some (Inr \<lparr>Relationships = 0, Transactions = 2, Namespaces = 0\<rparr>)"
    by code_simp
  have w: "window testConfig = 1000" by (simp add: testConfig_def)
  from delete_watermark_from_backend [of testConfig 5 ledgerTarget 1 _ _ fiveCommits] calls res w
  show ?thesis by simp
qed

subsection \<open>The Scheduler Loop returns on cancellation only\<close>

text \<open>
  Claim C5. Whatever the ticks end in, the Scheduler Loop returns nothing but the
  cancellation error, and only when external cancellation is set to fire; without
  cancellation it is still running after any number of ticks; and when cancellation
  fires, calls take time and ticks are spaced, it does return the cancellation error.
\<close>

theorem scheduler_returns_only_cancellation:
  "(fst (startGarbageCollectorWithMaxElapsedTime fuel cancel gc cfg latency s) = Some e
      \<longrightarrow> e = Cancelled
        \<and> (\<exists>a. cancel = Some a
              \<and> a \<le> clock (snd (startGarbageCollectorWithMaxElapsedTime fuel cancel gc cfg latency s))))
   \<and> (cancel = None
      \<longrightarrow> fst (startGarbageCollectorWithMaxElapsedTime fuel cancel gc cfg latency s) = None)
   \<and> (cancel = Some a \<and> 1 \<le> latency \<and> 1 \<le> interval cfg
      \<longrightarrow> (\<exists>fuel'. fst (startGarbageCollectorWithMaxElapsedTime fuel' cancel gc cfg latency s)
                     = Some Cancelled))"
proof -
  let ?run = "\<lambda>fuel cancel. startGarbageCollectorWithMaxElapsedTime fuel cancel gc cfg latency s"
  have ret: "e = Cancelled \<and> (\<exists>a. cancel = Some a \<and> a \<le> clock (snd (?run fuel cancel)))"
    if "fst (?run fuel cancel) = Some e" for e cancel
  proof -
    from that have "?run fuel cancel = (Some e, snd (?run fuel cancel))"
      by (metis prod.collapse)
    from start_result [OF this] show ?thesis by simp
  qed
  have never: "fst (?run fuel cancel) = None" if "cancel = None"
  proof (cases "fst (?run fuel cancel)")
    case None
    then show ?thesis .
  next
    case (Some x)
    from ret [OF this] that show ?thesis by simp
  qed
  have fires: "\<exists>fuel'. fst (?run fuel' cancel) = Some Cancelled"
    if "cancel = Some a \<and> 1 \<le> latency \<and> 1 \<le> interval cfg"
  proof -
    from that have l: "1 \<le> latency" and i: "1 \<le> interval cfg" and c: "cancel = Some a" by simp_all
    let ?fuel = "(a - clock s) + timeout cfg + 2"
    have "(a - clock (watch s)) + timeout cfg + 1 < ?fuel" by (simp add: watch_simps)
    from start_terminates [OF l i this, of gc] obtain s' where
      "startGarbageCollectorWithMaxElapsedTime ?fuel (Some a) (recording gc) cfg latency (watch s)
         = (Some Cancelled, s')" by blast
    with start_forget [of ?fuel "Some a" gc cfg latency "watch s"]
    have "fst (?run ?fuel cancel) = Some Cancelled"
      using c by (simp add: forget_watch)
    then show ?thesis by blast
  qed
  from ret never fires show ?thesis by blast
qed

theorem scheduler_returns_only_cancellation_witness:
  "fst (startGarbageCollectorWithMaxElapsedTime 6 (Some 100) fakeTarget testConfig 1 alwaysFailing)
     = Some Cancelled
   \<and> failureCounter
        (snd (startGarbageCollectorWithMaxElapsedTime 6 (Some 100) fakeTarget testConfig 1
                alwaysFailing)) = 7
   \<and> fst (startGarbageCollectorWithMaxElapsedTime 6 None fakeTarget testConfig 1 alwaysFailing)
     = None
   \<and> (\<exists>fuel'. fst (startGarbageCollectorWithMaxElapsedTime fuel' (Some 100) fakeTarget testConfig 1
                      alwaysFailing) = Some Cancelled)"
proof -
  have run: "fst (startGarbageCollectorWithMaxElapsedTime 6 (Some 100) fakeTarget testConfig 1
      alwaysFailing) = Some Cancelled"
    by code_simp
  have failures: "failureCounter
        (snd (startGarbageCollectorWithMaxElapsedTime 6 (Some 100) fakeTarget testConfig 1
                alwaysFailing)) = 7"
    by code_simp
  have cfg: "(1::nat) \<le> 1 \<and> 1 \<le> interval testConfig" by (simp add: testConfig_def)
  from scheduler_returns_only_cancellation
         [of 6 "Some 100" fakeTarget testConfig 1 alwaysFailing Cancelled 100]
       scheduler_returns_only_cancellation
         [of 6 None fakeTarget testConfig 1 alwaysFailing Cancelled 100]
       run failures cfg
  show ?thesis by blast
qed

subsection \<open>The One-Shot Runner\<close>




subsection \<open>The failure counter\<close>

text \<open>
  Claim C7. Step 6 increments the failure counter exactly once after a try that
  failed, that is, ended in any error but external cancellation, and leaves it alone
  otherwise. Seen from the backend, behind the recording wrapper: a try fails as not
  ready or backend-transient exactly when one of the calls that the backend received
  failed, and then exactly one did. After a run of any length of \<open>RunOnce\<close>,
  of the One-Shot Runner or of the Scheduler Loop, the failure counter has grown by
  exactly the number of failed calls that the backend received during the run, one for
  each try that failed on the backend, internal retries included, plus one for each
  try that the timeout cut: the last try of an attempt that returned
  \<open>DeadlineExceeded\<close>, in the loop the last try of each tick logged with that
  error. So it counts failed tries, not ticks, and no run decreases or resets it.
\<close>

theorem failure_counter_counts_failed_attempts:
  "failureCounter (snd (onFailure cfg c bo e s))
     = failureCounter s + (if e = Cancelled then 0 else 1)
   \<and> failing (received (snd (collect (recording gc) cfg latency c (watch s))))
     = (case fst (collect gc cfg latency c s) of
          Inl (NotReady msg) \<Rightarrow> 1
        | Inl (BackendTransient err) \<Rightarrow> 1
        | Inl Cancelled \<Rightarrow> 0
        | Inl DeadlineExceeded \<Rightarrow> 0
        | Inr counts \<Rightarrow> 0)
   \<and> failureCounter (snd (RunOnce fuel gc cfg latency c bo s))
       = failureCounter s
         + failing (received (snd (RunOnce fuel (recording gc) cfg latency c bo (watch s))))
         + (if fst (RunOnce fuel gc cfg latency c bo s) = Some (Inl DeadlineExceeded) then 1 else 0)
   \<and> failureCounter (snd (RunGarbageCollection fuel gc cfg latency s))
       = failureCounter s
         + failing (received (snd (RunGarbageCollection fuel (recording gc) cfg latency (watch s))))
         + (if fst (RunGarbageCollection fuel gc cfg latency s) = Some (Inl DeadlineExceeded)
            then 1 else 0)
   \<and> (\<exists>ticks.
         logged (snd (startGarbageCollectorWithMaxElapsedTime fuel cancel gc cfg latency s))
           = ticks @ logged s
       \<and> failureCounter (snd (startGarbageCollectorWithMaxElapsedTime fuel cancel gc cfg latency s))
           = failureCounter s
             + failing (received (snd (startGarbageCollectorWithMaxElapsedTime fuel cancel
                                         (recording gc) cfg latency (watch s))))
             + aborts ticks)
   \<and> failureCounter s \<le> failureCounter (snd (RunOnce fuel gc cfg latency c bo s))
   \<and> failureCounter s \<le> failureCounter (snd (RunGarbageCollection fuel gc cfg latency s))
   \<and> failureCounter s
       \<le> failureCounter (snd (startGarbageCollectorWithMaxElapsedTime fuel cancel gc cfg latency s))"
proof -
  let ?one = "collect (recording gc) cfg latency c (watch s)"
  let ?once = "\<lambda>c bo. RunOnce fuel (recording gc) cfg latency c bo (watch s)"
  let ?loop = "startGarbageCollectorWithMaxElapsedTime fuel cancel (recording gc) cfg latency (watch s)"
  have tried: "failing (received (snd ?one))
     = (case fst (collect gc cfg latency c s) of
          Inl (NotReady msg) \<Rightarrow> 1
        | Inl (BackendTransient err) \<Rightarrow> 1
        | Inl Cancelled \<Rightarrow> 0
        | Inl DeadlineExceeded \<Rightarrow> 0
        | Inr counts \<Rightarrow> 0)"
  proof -
    have "collect (recording gc) cfg latency c (watch s) = (fst ?one, snd ?one)" by simp
    from collect_failing [OF this] collect_forget [of gc cfg latency c "watch s"]
    show ?thesis by (simp add: forget_watch watch_simps failing_simps)
  qed
  have once: "failureCounter (snd (RunOnce fuel gc cfg latency c bo s))
       = failureCounter s + failing (received (snd (?once c bo)))
         + (if fst (RunOnce fuel gc cfg latency c bo s) = Some (Inl DeadlineExceeded) then 1 else 0)"
    for c bo
  proof -
    have "RunOnce fuel (recording gc) cfg latency c bo (watch s) = (fst (?once c bo), snd (?once c bo))"
      by simp
    from RunOnce_count [OF this] RunOnce_forget [of fuel gc cfg latency c bo "watch s"]
    show ?thesis by (simp add: forget_watch forget_simps watch_simps failing_simps)
  qed
  have loop: "\<exists>ticks.
         logged (snd (startGarbageCollectorWithMaxElapsedTime fuel cancel gc cfg latency s))
           = ticks @ logged s
       \<and> failureCounter (snd (startGarbageCollectorWithMaxElapsedTime fuel cancel gc cfg latency s))
           = failureCounter s + failing (received (snd ?loop)) + aborts ticks"
  proof -
    have run: "startGarbageCollectorWithMaxElapsedTime fuel cancel (recording gc) cfg latency (watch s)
        = (fst ?loop, snd ?loop)" by simp
    from start_logged [OF run] obtain ticks where t: "logged (snd ?loop) = ticks @ logged s"
      by (auto simp: watch_simps)
    from start_count [OF run] t
    have "failureCounter (snd ?loop) = failureCounter s + failing (received (snd ?loop)) + aborts ticks"
      by (simp add: watch_simps failing_simps aborts_append)
    with t start_forget [of fuel cancel gc cfg latency "watch s"]
    show ?thesis by (simp add: forget_watch forget_simps)
  qed
  have step: "failureCounter (snd (onFailure cfg c bo e s))
     = failureCounter s + (if e = Cancelled then 0 else 1)"
    using onFailure_props(1) [of cfg c bo e s "fst (onFailure cfg c bo e s)"
        "snd (onFailure cfg c bo e s)"]
    by (simp add: failureStep_def)
  have mono: "failureCounter s \<le> failureCounter (snd (RunOnce fuel gc cfg latency c bo s))" for c bo
    by (simp add: once)
  from loop have mono': "failureCounter s
       \<le> failureCounter (snd (startGarbageCollectorWithMaxElapsedTime fuel cancel gc cfg latency s))"
    by auto
  from step tried once loop mono mono' show ?thesis
    by (simp add: RunGarbageCollection_def watch_simps)
qed

theorem failure_counter_counts_failed_attempts_witness:
  "failureCounter (snd (startGarbageCollectorWithMaxElapsedTime 6 (Some 100) fakeTarget testConfig 1
                          alwaysFailing)) = 7
   \<and> logged (snd (startGarbageCollectorWithMaxElapsedTime 6 (Some 100) fakeTarget testConfig 1
                    alwaysFailing))
       = [Cancelled, BackendTransient ''delete error'', BackendTransient ''delete error'',
          BackendTransient ''delete error'']
   \<and> failing (received (snd (startGarbageCollectorWithMaxElapsedTime 6 (Some 100)
                               (recording fakeTarget) testConfig 1 (watch alwaysFailing)))) = 7
   \<and> failureCounter (snd (startGarbageCollectorWithMaxElapsedTime 40 (Some 200) fakeTarget
                            hastyConfig 1 alwaysFailing)) = 44
   \<and> logged (snd (startGarbageCollectorWithMaxElapsedTime 40 (Some 200) fakeTarget hastyConfig 1
                    alwaysFailing)) = [Cancelled, DeadlineExceeded, DeadlineExceeded]
   \<and> failing (received (snd (startGarbageCollectorWithMaxElapsedTime 40 (Some 200)
                               (recording fakeTarget) hastyConfig 1 (watch alwaysFailing)))) = 42
   \<and> failureCounter (snd (RunGarbageCollection 5 fakeTarget patientConfig 1 failingTwice)) = 2"
proof -
  let ?c = "\<lparr>cancelAt = None, deadline = None\<rparr>"
  let ?bo = "newBackoff testConfig 0"
  have calm: "failureCounter (snd (startGarbageCollectorWithMaxElapsedTime 6 (Some 100) fakeTarget
      testConfig 1 alwaysFailing)) = 7" by code_simp
  have ticks: "logged (snd (startGarbageCollectorWithMaxElapsedTime 6 (Some 100) fakeTarget
      testConfig 1 alwaysFailing))
       = [Cancelled, BackendTransient ''delete error'', BackendTransient ''delete error'',
          BackendTransient ''delete error'']" by code_simp
  have hasty: "logged (snd (startGarbageCollectorWithMaxElapsedTime 40 (Some 200) fakeTarget
      hastyConfig 1 alwaysFailing)) = [Cancelled, DeadlineExceeded, DeadlineExceeded]" by code_simp
  have failed: "failing (received (snd (startGarbageCollectorWithMaxElapsedTime 40 (Some 200)
      (recording fakeTarget) hastyConfig 1 (watch alwaysFailing)))) = 42" by code_simp
  have twice: "failing (received (snd (RunGarbageCollection 5 (recording fakeTarget) patientConfig 1
      (watch failingTwice)))) = 2" by code_simp
  have nil: "fst (RunGarbageCollection 5 fakeTarget patientConfig 1 failingTwice)
      = Some (Inr noDeletions)" by code_simp
  have none: "logged alwaysFailing = []" "failureCounter alwaysFailing = 0"
    "failureCounter failingTwice = 0"
    by (simp_all add: alwaysFailing_def failingTwice_def initialState_def)
  from failure_counter_counts_failed_attempts
         [of testConfig ?c ?bo Cancelled alwaysFailing fakeTarget 1 6 "Some 100"]
  obtain ts where l: "logged (snd (startGarbageCollectorWithMaxElapsedTime 6 (Some 100) fakeTarget
      testConfig 1 alwaysFailing)) = ts @ logged alwaysFailing"
    and f: "failureCounter (snd (startGarbageCollectorWithMaxElapsedTime 6 (Some 100) fakeTarget
      testConfig 1 alwaysFailing))
       = failureCounter alwaysFailing
         + failing (received (snd (startGarbageCollectorWithMaxElapsedTime 6 (Some 100)
                               (recording fakeTarget) testConfig 1 (watch alwaysFailing))))
         + aborts ts"
    by blast
  from l [unfolded ticks none] have "aborts ts = 0" by (auto simp: aborts_simps)
  with f [unfolded calm none]
  have a: "failing (received (snd (startGarbageCollectorWithMaxElapsedTime 6 (Some 100)
                               (recording fakeTarget) testConfig 1 (watch alwaysFailing)))) = 7"
    by arith
  from failure_counter_counts_failed_attempts
         [of hastyConfig ?c ?bo Cancelled alwaysFailing fakeTarget 1 40 "Some 200"]
  obtain us where l': "logged (snd (startGarbageCollectorWithMaxElapsedTime 40 (Some 200) fakeTarget
      hastyConfig 1 alwaysFailing)) = us @ logged alwaysFailing"
    and f': "failureCounter (snd (startGarbageCollectorWithMaxElapsedTime 40 (Some 200) fakeTarget
      hastyConfig 1 alwaysFailing))
       = failureCounter alwaysFailing
         + failing (received (snd (startGarbageCollectorWithMaxElapsedTime 40 (Some 200)
                               (recording fakeTarget) hastyConfig 1 (watch alwaysFailing))))
         + aborts us"
    by blast
  from l' [unfolded hasty none] have "aborts us = 2" by (auto simp: aborts_simps)
  with f' [unfolded failed none]
  have b: "failureCounter (snd (startGarbageCollectorWithMaxElapsedTime 40 (Some 200) fakeTarget
                            hastyConfig 1 alwaysFailing)) = 44"
    by arith
  from failure_counter_counts_failed_attempts
         [of patientConfig ?c ?bo Cancelled failingTwice fakeTarget 1 5 None]
  have "failureCounter (snd (RunGarbageCollection 5 fakeTarget patientConfig 1 failingTwice))
       = failureCounter failingTwice
         + failing (received (snd (RunGarbageCollection 5 (recording fakeTarget) patientConfig 1
                                     (watch failingTwice))))
         + (if fst (RunGarbageCollection 5 fakeTarget patientConfig 1 failingTwice)
               = Some (Inl DeadlineExceeded)
            then 1 else 0)"
    by blast
  with twice nil none
  have c: "failureCounter (snd (RunGarbageCollection 5 fakeTarget patientConfig 1 failingTwice)) = 2"
    by simp
  from calm ticks a b hasty failed c show ?thesis by blast
qed

end
